theory Spec2Isabelle
  imports Complex_Main "HOL-Library.Product_Lexorder" "HOL-Library.List_Lexorder"
    "HOL-Library.Sublist" "HOL-Library.Multiset"
begin

section \<open>Data model: the tables of database.py\<close>

text \<open>
  Python strings are sequences of Unicode code points. Text that the bot only ever fills
  with ASCII (status values, the decimal rendering of a Telegram user id, timestamps) is a
  \<open>string\<close>; text that carries Cyrillic (categories, levels, skill tiers, free text) is a
  list of code points.
\<close>

type_synonym ustr = "nat list"

definition ustr_of :: "string \<Rightarrow> ustr" where
  "ustr_of s = map of_char s"

text \<open>
  One record per table, with the columns that some handler of bot.py reads in a condition
  or writes. Columns that are only copied into message texts (names, descriptions, document
  file ids) are left out. A column is an \<open>option\<close> where a handler leaves it NULL or tests
  it for NULL. A rating is an integer in every row: process_rating always passes one.
  avg_rating holds the decimal number that the stored float shows.
\<close>

record request =
  r_id :: int
  r_status :: string
  r_master_id :: "int option"
  r_contact :: ustr
  r_client_user_id :: "string option"
  r_category :: ustr
  r_review_requested :: int
  r_completed_at :: "int option"
  r_created_at :: int

record master =
  m_id :: int
  m_contact :: string
  m_level :: ustr
  m_is_active :: int
  m_sub_until :: "string option"
  m_priority_until :: "string option"
  m_pin_until :: "string option"
  m_free_orders_left :: "int option"
  m_categories_auto :: "ustr option"
  m_orders_completed :: "int option"
  m_skill_tier :: ustr
  m_avg_rating :: rat
  m_reviews_count :: int

record offer =
  o_id :: int
  o_request_id :: "int option"
  o_master_id :: int
  o_status :: string

record review =
  rv_id :: int
  rv_request_id :: int
  rv_master_id :: int
  rv_client_id :: ustr
  rv_rating :: int
  rv_comment :: "ustr option"

text \<open>
  A table is the list of its rows in rowid order. Every table has
  \<open>id INTEGER PRIMARY KEY AUTOINCREMENT\<close>: the \<open>seq_\<close> fields hold the largest rowid ever
  handed out (SQLite's sqlite_sequence), so that an id is never reused after a DELETE.
\<close>

record db =
  requests :: "request list"
  masters :: "master list"
  offers :: "offer list"
  reviews :: "review list"
  seq_requests :: int
  seq_masters :: int
  seq_offers :: int
  seq_reviews :: int

definition empty_db :: db where
  "empty_db = \<lparr>requests = [], masters = [], offers = [], reviews = [],
     seq_requests = 0, seq_masters = 0, seq_offers = 0, seq_reviews = 0\<rparr>"

section \<open>The environment of one handler run\<close>

text \<open>
  \<open>DatabaseManager.execute\<close> (database.py 21-30) runs \<open>cur.execute\<close> and then
  \<open>conn.commit\<close> inside one try block; on an exception it logs and returns None, without a
  rollback. A call therefore ends in one of three ways. \<open>Done\<close>: the statement ran and was
  committed, the cursor is returned. \<open>Refused\<close>: \<open>cur.execute\<close> raised, nothing was written,
  None is returned. \<open>Uncommitted\<close>: the statement ran and \<open>conn.commit\<close> raised, as it does
  on a locked database; None is returned, but the write stays in the open transaction of
  the one connection the bot uses, where every later statement sees it and the next commit
  that succeeds makes it durable. The tables of the model are what that connection sees.
  \<open>fetch_one\<close> and \<open>fetch_all\<close> turn a returned None into None and [].

  The call sites are named, and the environment says how each call of this run ends. A
  bare \<open>db.commit()\<close> after a statement is outside any try block of database.py and may
  raise; \<open>commit_raises\<close> says so for the commit that follows the named site. Unguarded
  Telegram calls that sit between two writes are named as well. The clock, the parsing and
  printing of timestamps and the outcome of delivering an offer are taken from the
  environment, and so is the order in which the broadcaster's SELECT, which has no ORDER
  BY, returns the master rows: \<open>row_order\<close> is the key by which the engine walks them,
  rows with equal keys in rowid order. Every other SELECT asks for one primary key or is
  answered through the index on the one column it tests, in rowid order.
\<close>

datatype site =
    OA_select_request | OA_skip | OA_select_current | OA_select_master | OA_debit
  | OA_assign | OA_select_full | OA_taken
  | RR_select_flag | RR_select_review | RR_set_flag
  | MC_select_request | MC_complete | MC_update_master | CT_select
  | UMS_select | UMS_update
  | PR_select_request | PR_insert
  | CO_select | CO_pending
  | CC_select | CC_assigned
  | SM_select | SM_insert int | SM_deactivate int
  | RS_insert | MF_insert | MF_npd | PAY_update | DP_masters | DP_requests
  | CM_select | CM_update | PC_select

datatype outcome = Done | Refused | Uncommitted

datatype tg_site = TG_claim_edit | TG_claim_details | TG_confirm_no_edit

datatype delivery = Delivered | Blocked | Other_error

record env =
  utcnow :: int
  strptime :: "string \<Rightarrow> int option"
  strftime :: "int \<Rightarrow> string"
  local_now :: int
  db_outcome :: "site \<Rightarrow> outcome"
  commit_raises :: "site \<Rightarrow> bool"
  tg_fails :: "tg_site \<Rightarrow> bool"
  deliver :: "int \<Rightarrow> delivery"
  row_order :: "master \<Rightarrow> nat list"

text \<open>
  \<open>db_fails\<close>: the call returns None. \<open>write_lost\<close>: the statement of the call is not in
  effect afterwards. \<open>execute\<close> gives the tables after the call.
\<close>

definition db_fails :: "env \<Rightarrow> site \<Rightarrow> bool" where
  "db_fails e s \<longleftrightarrow> db_outcome e s \<noteq> Done"

definition write_lost :: "env \<Rightarrow> site \<Rightarrow> bool" where
  "write_lost e s \<longleftrightarrow> db_outcome e s = Refused"

definition execute :: "env \<Rightarrow> site \<Rightarrow> (db \<Rightarrow> db) \<Rightarrow> db \<Rightarrow> db" where
  "execute e s f d = (if write_lost e s then d else f d)"

definition fetch_all :: "env \<Rightarrow> site \<Rightarrow> 'a list \<Rightarrow> 'a list" where
  "fetch_all e s rows = (if db_fails e s then [] else rows)"

definition fetch_one :: "env \<Rightarrow> site \<Rightarrow> 'a list \<Rightarrow> 'a option" where
  "fetch_one e s rows =
     (if db_fails e s then None else (case rows of [] \<Rightarrow> None | r # _ \<Rightarrow> Some r))"

text \<open>is_active (bot.py 121-126): absent, empty or malformed timestamps are inactive.\<close>

definition is_active :: "env \<Rightarrow> string option \<Rightarrow> bool" where
  "is_active e until_str =
     (case until_str of
        None \<Rightarrow> False
      | Some s \<Rightarrow>
          if s = [] then False
          else (case strptime e s of None \<Rightarrow> False | Some t \<Rightarrow> utcnow e < t))"

section \<open>rate_limiter.py\<close>

text \<open>
  \<open>user_requests\<close> is a defaultdict from the key \<open>f"{user_id}_{action}"\<close> to a list of
  times; the key is modelled as the pair. Times are microseconds.
\<close>

type_synonym limiter = "string \<times> string \<Rightarrow> int list"

definition check_limit ::
  "limiter \<Rightarrow> int \<Rightarrow> string \<Rightarrow> string \<Rightarrow> nat \<Rightarrow> int \<Rightarrow> bool \<times> limiter" where
  "check_limit rl now user_id action limit period =
     (let key = (user_id, action);
          kept = filter (\<lambda>req_time. now - req_time < period * 1000000) (rl key)
      in if length kept \<ge> limit then (False, rl(key := kept))
         else (True, rl(key := kept @ [now])))"

section \<open>Offer resolution: offer_actions (bot.py 2640-2741)\<close>

datatype offer_reply =
    Too_many_actions | Order_not_found | Skipped | Auth_error | Already_taken
  | Master_not_found | Upsell | Claimed | Raised | No_reply

definition set_offer_status :: "string \<Rightarrow> int \<Rightarrow> int \<Rightarrow> db \<Rightarrow> db" where
  "set_offer_status st req_id master_id d =
     d\<lparr>offers := map (\<lambda>ofr. if o_request_id ofr = Some req_id \<and> o_master_id ofr = master_id
                              then ofr\<lparr>o_status := st\<rparr> else ofr) (offers d)\<rparr>"

definition debit_free_order :: "int \<Rightarrow> db \<Rightarrow> db" where
  "debit_free_order master_id d =
     d\<lparr>masters := map (\<lambda>m. if m_id m = master_id
                            then m\<lparr>m_free_orders_left := map_option (\<lambda>n. n - 1) (m_free_orders_left m)\<rparr>
                            else m) (masters d)\<rparr>"

definition assign_request :: "int \<Rightarrow> int \<Rightarrow> db \<Rightarrow> db" where
  "assign_request master_id req_id d =
     d\<lparr>requests := map (\<lambda>r. if r_id r = req_id
                             then r\<lparr>r_status := ''assigned'', r_master_id := Some master_id\<rparr>
                             else r) (requests d)\<rparr>"

text \<open>
  The part of the take branch after the entitlement check: the status write, the two
  unguarded Telegram calls, and the final write of the offer.
\<close>

definition claim_accepted :: "env \<Rightarrow> db \<Rightarrow> int \<Rightarrow> int \<Rightarrow> offer_reply \<times> db" where
  "claim_accepted e d req_id master_id =
     (let d2 = execute e OA_assign (assign_request master_id req_id) d in
      if tg_fails e TG_claim_edit then (Raised, d2)
      else
        (case fetch_one e OA_select_full (filter (\<lambda>r. r_id r = req_id) (requests d2)) of
           Some request_full \<Rightarrow>
             if tg_fails e TG_claim_details then (Raised, d2)
             else (Claimed, execute e OA_taken (set_offer_status ''taken'' req_id master_id) d2)
         | None \<Rightarrow>
             (Claimed, execute e OA_taken (set_offer_status ''taken'' req_id master_id) d2)))"

definition offer_take :: "env \<Rightarrow> db \<Rightarrow> string \<Rightarrow> string \<Rightarrow> int \<Rightarrow> int \<Rightarrow> offer_reply \<times> db" where
  "offer_take e d uid status req_id master_id =
     (case fetch_one e OA_select_current (filter (\<lambda>m. m_contact m = uid) (masters d)) of
        None \<Rightarrow> (Auth_error, d)
      | Some current_master \<Rightarrow>
          if m_id current_master \<noteq> master_id then (Auth_error, d)
          else if status \<noteq> ''new'' then (Already_taken, d)
          else
            (case fetch_one e OA_select_master (filter (\<lambda>m. m_id m = master_id) (masters d)) of
               None \<Rightarrow> (Master_not_found, d)
             | Some m \<Rightarrow>
                 if is_active e (m_sub_until m) then claim_accepted e d req_id master_id
                 else if (case m_free_orders_left m of None \<Rightarrow> 0 | Some n \<Rightarrow> n) > 0
                 then claim_accepted e (execute e OA_debit (debit_free_order master_id) d)
                        req_id master_id
                 else (Upsell, d)))"

text \<open>
  The handler receives the callback data \<open>offer:<action>:<req_id>:<master_id>\<close> already split
  and parsed, and the caller as \<open>uid = str(c.from_user.id)\<close>. (Data that does not parse
  raises before the first database call.)
\<close>

definition offer_actions ::
  "env \<Rightarrow> limiter \<Rightarrow> db \<Rightarrow> string \<Rightarrow> string \<Rightarrow> int \<Rightarrow> int \<Rightarrow> offer_reply \<times> limiter \<times> db" where
  "offer_actions e rl d uid action req_id master_id =
     (case check_limit rl (local_now e) uid ''offer_actions'' 10 3600 of
        (False, rl') \<Rightarrow> (Too_many_actions, rl', d)
      | (True, rl') \<Rightarrow>
          (case fetch_one e OA_select_request (filter (\<lambda>r. r_id r = req_id) (requests d)) of
             None \<Rightarrow> (Order_not_found, rl', d)
           | Some row \<Rightarrow>
               if action = ''skip''
               then (Skipped, rl', execute e OA_skip (set_offer_status ''skipped'' req_id master_id) d)
               else if action = ''take''
               then (case offer_take e d uid (r_status row) req_id master_id of
                       (reply, d') \<Rightarrow> (reply, rl', d'))
               else (No_reply, rl', d)))"

section \<open>Review subsystem\<close>

text \<open>
  request_review (bot.py 337-397). The master and client arguments only choose the text and
  the recipient of the prompt; the result says whether the prompt was sent. The whole body
  is inside try/except, so a failed delivery leaves the flag set.
\<close>

definition set_review_requested :: "int \<Rightarrow> db \<Rightarrow> db" where
  "set_review_requested request_id d =
     d\<lparr>requests := map (\<lambda>r. if r_id r = request_id then r\<lparr>r_review_requested := 1\<rparr> else r)
                       (requests d)\<rparr>"

definition request_review_after_flag :: "env \<Rightarrow> db \<Rightarrow> int \<Rightarrow> bool \<times> db" where
  "request_review_after_flag e d request_id =
     (case fetch_one e RR_select_review (filter (\<lambda>v. rv_request_id v = request_id) (reviews d)) of
        Some existing_review \<Rightarrow> (False, d)
      | None \<Rightarrow> (True, execute e RR_set_flag (set_review_requested request_id) d))"

definition request_review :: "env \<Rightarrow> db \<Rightarrow> int \<Rightarrow> bool \<times> db" where
  "request_review e d request_id =
     (case fetch_one e RR_select_flag (filter (\<lambda>r. r_id r = request_id) (requests d)) of
        Some request_data \<Rightarrow>
          if r_review_requested request_data \<noteq> 0 then (False, d)
          else request_review_after_flag e d request_id
      | None \<Rightarrow> request_review_after_flag e d request_id)"

text \<open>
  Floating point. A float is modelled by the rational number it holds. \<open>to_double\<close> is the
  IEEE 754 binary64 value nearest to a rational, ties to the even significand, for
  magnitudes in the normal range (the mean of ratings lies between 1 and 5): with
  \<open>2 ^ e \<le> \<bar>q\<bar> < 2 ^ (e + 1)\<close> the doubles around \<open>q\<close> are the multiples of \<open>2 ^ (e - 52)\<close>.
\<close>

fun ilog2 :: "nat \<Rightarrow> nat" where
  "ilog2 n = (if n < 2 then 0 else Suc (ilog2 (n div 2)))"

declare ilog2.simps [simp del]

definition exponent :: "rat \<Rightarrow> int" where
  "exponent q =
     (if 1 \<le> q then int (ilog2 (nat \<lfloor>q\<rfloor>))
      else - int (ilog2 (nat (\<lceil>1 / q\<rceil> - 1))) - 1)"

definition pow2 :: "int \<Rightarrow> rat" where
  "pow2 k = (if 0 \<le> k then 2 ^ nat k else 1 / 2 ^ nat (- k))"

definition round_half_even :: "rat \<Rightarrow> int" where
  "round_half_even q =
     (let f = \<lfloor>q\<rfloor>; r = q - of_int f
      in if r < 1 / 2 then f
         else if 1 / 2 < r then f + 1
         else if even f then f else f + 1)"

definition to_double :: "rat \<Rightarrow> rat" where
  "to_double q =
     (if q = 0 then 0
      else (let ulp = pow2 (exponent \<bar>q\<bar> - 52)
            in of_int (round_half_even (q / ulp)) * ulp))"

text \<open>
  \<open>AVG(rating)\<close> over integer ratings is SQLite's sum of the ratings divided by their
  number in double arithmetic: one correctly rounded division, both operands being exact
  as long as they stay below \<open>2 ^ 53\<close>. Python's \<open>round(x, 1)\<close> on a float rounds the exact
  value of the double to one decimal, ties to the even digit, and returns the double
  nearest to that decimal; the model keeps the decimal, which is what the column shows.
\<close>

definition sql_avg :: "int list \<Rightarrow> rat" where
  "sql_avg rs = to_double (of_int (sum_list rs) / of_nat (length rs))"

definition py_round1 :: "rat \<Rightarrow> rat" where
  "py_round1 x = of_int (round_half_even (10 * x)) / 10"

text \<open>
  update_master_stats (bot.py 399-430). The aggregate query returns one row whenever it
  runs, with COUNT 0 on no rows.
\<close>

definition master_ratings :: "db \<Rightarrow> int option \<Rightarrow> int list" where
  "master_ratings d master_id =
     map rv_rating (filter (\<lambda>v. Some (rv_master_id v) = master_id) (reviews d))"

definition set_master_stats :: "rat \<Rightarrow> int \<Rightarrow> int option \<Rightarrow> db \<Rightarrow> db" where
  "set_master_stats avg_rating reviews_count master_id d =
     d\<lparr>masters := map (\<lambda>m. if Some (m_id m) = master_id
                            then m\<lparr>m_avg_rating := avg_rating, m_reviews_count := reviews_count\<rparr>
                            else m) (masters d)\<rparr>"

definition update_master_stats :: "env \<Rightarrow> db \<Rightarrow> int option \<Rightarrow> db" where
  "update_master_stats e d master_id =
     (if db_fails e UMS_select then d
      else
        (let rs = master_ratings d master_id;
             reviews_count = int (length rs)
         in if reviews_count > 0
            then execute e UMS_update
                   (set_master_stats (py_round1 (sql_avg rs)) reviews_count master_id) d
            else d))"

text \<open>
  process_rating (bot.py 966-1012). The INSERT is rejected by the table's constraints when
  master_id is NULL (NOT NULL) or the rating is outside 1..5 (CHECK); execute logs that like
  any other error and the handler goes on. The bare \<open>db.commit()\<close> after the INSERT is
  inside the handler's try block: when it raises, the handler answers with the error
  message and the statistics are not recomputed.
\<close>

datatype rating_reply = Rating_request_not_found | Rating_thanks | Rating_error

definition insert_review :: "int \<Rightarrow> int \<Rightarrow> ustr \<Rightarrow> int \<Rightarrow> db \<Rightarrow> db" where
  "insert_review request_id master_id client_id rating d =
     d\<lparr>reviews := reviews d @
          [\<lparr>rv_id = seq_reviews d + 1, rv_request_id = request_id, rv_master_id = master_id,
            rv_client_id = client_id, rv_rating = rating, rv_comment = None\<rparr>],
       seq_reviews := seq_reviews d + 1\<rparr>"

text \<open>The tables after the INSERT of process_rating.\<close>

definition rated :: "env \<Rightarrow> db \<Rightarrow> string \<Rightarrow> int \<Rightarrow> int \<Rightarrow> int option \<Rightarrow> db" where
  "rated e d uid request_id rating master_id =
     (case master_id of
        None \<Rightarrow> d
      | Some mid \<Rightarrow>
          if 1 \<le> rating \<and> rating \<le> 5
          then execute e PR_insert (insert_review request_id mid (ustr_of uid) rating) d
          else d)"

definition process_rating :: "env \<Rightarrow> db \<Rightarrow> string \<Rightarrow> int \<Rightarrow> int \<Rightarrow> rating_reply \<times> db" where
  "process_rating e d uid request_id rating =
     (case fetch_one e PR_select_request (filter (\<lambda>r. r_id r = request_id) (requests d)) of
        None \<Rightarrow> (Rating_request_not_found, d)
      | Some request \<Rightarrow>
          (let master_id = r_master_id request;
               d1 = rated e d uid request_id rating master_id
           in if commit_raises e PR_insert then (Rating_error, d1)
              else (Rating_thanks, update_master_stats e d1 master_id)))"

text \<open>comp_text, review branch (bot.py 2780-2792): the comment goes to every row of the request.\<close>

definition set_review_comment :: "ustr \<Rightarrow> int \<Rightarrow> db \<Rightarrow> db" where
  "set_review_comment txt request_id d =
     d\<lparr>reviews := map (\<lambda>v. if rv_request_id v = request_id then v\<lparr>rv_comment := Some txt\<rparr> else v)
                      (reviews d)\<rparr>"

definition comp_text :: "env \<Rightarrow> db \<Rightarrow> int \<Rightarrow> ustr \<Rightarrow> db" where
  "comp_text e d request_id txt =
     (case fetch_one e CM_select (filter (\<lambda>r. r_id r = request_id) (requests d)) of
        None \<Rightarrow> d
      | Some request \<Rightarrow> execute e CM_update (set_review_comment txt request_id) d)"

text \<open>A sequence of rating submissions \<open>(uid, request_id, rating)\<close>, handled one after another.\<close>

fun rate_all :: "env \<Rightarrow> db \<Rightarrow> (string \<times> int \<times> int) list \<Rightarrow> db" where
  "rate_all e d [] = d"
| "rate_all e d ((uid, request_id, rating) # rest) =
     rate_all e (snd (process_rating e d uid request_id rating)) rest"

section \<open>Order lifecycle\<close>

definition tier_novice :: ustr where
  "tier_novice = [1053, 1086, 1074, 1080, 1095, 1086, 1082]"

definition tier_master :: ustr where
  "tier_master = [1052, 1072, 1089, 1090, 1077, 1088]"

definition tier_professional :: ustr where
  "tier_professional = [1055, 1088, 1086, 1092, 1077, 1089, 1089, 1080, 1086, 1085, 1072, 1083]"

text \<open>calc_skill_tier (bot.py 250-267) reads the stored counter of the master.\<close>

definition calc_skill_tier :: "env \<Rightarrow> db \<Rightarrow> int option \<Rightarrow> ustr" where
  "calc_skill_tier e d master_id =
     (case fetch_one e CT_select (filter (\<lambda>m. Some (m_id m) = master_id) (masters d)) of
        None \<Rightarrow> tier_novice
      | Some master \<Rightarrow>
          (let orders_completed = (case m_orders_completed master of None \<Rightarrow> 0 | Some n \<Rightarrow> n)
           in if orders_completed < 20 then tier_novice
              else if orders_completed < 50 then tier_master
              else tier_professional))"

definition set_completed :: "int \<Rightarrow> int \<Rightarrow> db \<Rightarrow> db" where
  "set_completed now request_id d =
     d\<lparr>requests := map (\<lambda>r. if r_id r = request_id
                             then r\<lparr>r_status := ''completed'', r_completed_at := Some now\<rparr>
                             else r) (requests d)\<rparr>"

definition bump_orders_completed :: "ustr \<Rightarrow> int option \<Rightarrow> db \<Rightarrow> db" where
  "bump_orders_completed tier master_id d =
     d\<lparr>masters := map (\<lambda>m. if Some (m_id m) = master_id
                            then m\<lparr>m_orders_completed := map_option (\<lambda>n. n + 1) (m_orders_completed m),
                                   m_skill_tier := tier\<rparr>
                            else m) (masters d)\<rparr>"

text \<open>
  mark_request_completed (bot.py 445-489). The parameter tuple of the second UPDATE is built
  before the statement runs, so calc_skill_tier reads the counter that the statement is about
  to increment.
\<close>

definition mark_request_completed :: "env \<Rightarrow> db \<Rightarrow> int \<Rightarrow> bool \<times> db" where
  "mark_request_completed e d request_id =
     (case fetch_one e MC_select_request (filter (\<lambda>r. r_id r = request_id) (requests d)) of
        None \<Rightarrow> (False, d)
      | Some request \<Rightarrow>
          (let d1 = execute e MC_complete (set_completed (utcnow e) request_id) d;
               d2 = snd (request_review e d1 request_id);
               tier = calc_skill_tier e d2 (r_master_id request)
           in (True, execute e MC_update_master
                       (bump_orders_completed tier (r_master_id request)) d2)))"

text \<open>
  complete_order (bot.py 1070-1134). The scalar subquery yields the id of the first master
  with the caller's contact, or NULL, and \<open>master_id = NULL\<close> selects nothing.
\<close>

datatype complete_reply =
    Complete_not_found | Complete_already_completed | Complete_waiting | Complete_marked

definition set_status :: "string \<Rightarrow> int \<Rightarrow> db \<Rightarrow> db" where
  "set_status st request_id d =
     d\<lparr>requests := map (\<lambda>r. if r_id r = request_id then r\<lparr>r_status := st\<rparr> else r) (requests d)\<rparr>"

definition complete_order :: "env \<Rightarrow> db \<Rightarrow> string \<Rightarrow> int \<Rightarrow> complete_reply \<times> db" where
  "complete_order e d uid request_id =
     (case fetch_one e CO_select
             (filter (\<lambda>r. r_id r = request_id \<and>
                           (case filter (\<lambda>m. m_contact m = uid) (masters d) of
                              [] \<Rightarrow> False
                            | m # _ \<Rightarrow> r_master_id r = Some (m_id m)))
                     (requests d)) of
        None \<Rightarrow> (Complete_not_found, d)
      | Some request \<Rightarrow>
          if r_status request = ''completed'' then (Complete_already_completed, d)
          else if r_status request = ''pending_confirmation'' then (Complete_waiting, d)
          else (Complete_marked,
                execute e CO_pending (set_status ''pending_confirmation'' request_id) d))"

text \<open>client_confirmation (bot.py 1136-1218), callback data \<open>confirm:<request_id>:<answer>\<close>.\<close>

datatype confirm_reply =
    Confirm_not_found | Confirm_already_completed | Confirm_thanks | Confirm_failed
  | Confirm_disputed | Confirm_error | Confirm_no_reply

definition client_confirmation :: "env \<Rightarrow> db \<Rightarrow> int \<Rightarrow> string \<Rightarrow> confirm_reply \<times> db" where
  "client_confirmation e d request_id answer =
     (case fetch_one e CC_select (filter (\<lambda>r. r_id r = request_id) (requests d)) of
        None \<Rightarrow> (Confirm_not_found, d)
      | Some request \<Rightarrow>
          if r_status request = ''completed'' then (Confirm_already_completed, d)
          else if answer = ''yes''
          then (case mark_request_completed e d request_id of
                  (True, d') \<Rightarrow> (Confirm_thanks, d')
                | (False, d') \<Rightarrow> (Confirm_failed, d'))
          else if answer = ''no''
          then (if tg_fails e TG_confirm_no_edit then (Confirm_error, d)
                else (Confirm_disputed, execute e CC_assigned (set_status ''assigned'' request_id) d))
          else (Confirm_no_reply, d))"

text \<open>
  periodic_cleanup (bot.py 2826-2908), the auto-completion pass of one cycle. Each request
  of the batch is completed in its own environment \<open>es i\<close>, \<open>i\<close> the position in the batch.
  The document purge of the same cycle clears columns that are not part of this model.
\<close>

fun auto_complete_batch :: "(nat \<Rightarrow> env) \<Rightarrow> nat \<Rightarrow> db \<Rightarrow> request list \<Rightarrow> db" where
  "auto_complete_batch es i d [] = d"
| "auto_complete_batch es i d (req # pending) =
     auto_complete_batch es (Suc i) (snd (mark_request_completed (es i) d (r_id req))) pending"

definition periodic_cleanup :: "env \<Rightarrow> (nat \<Rightarrow> env) \<Rightarrow> db \<Rightarrow> db" where
  "periodic_cleanup e es d =
     auto_complete_batch es 0 d
       (fetch_all e PC_select
          (filter (\<lambda>r. r_status r = ''pending_confirmation'' \<and> r_created_at r < utcnow e - 86400)
                  (requests d)))"

definition cleanup_old_entries :: "int \<Rightarrow> limiter \<Rightarrow> limiter" where
  "cleanup_old_entries now rl = (\<lambda>key. filter (\<lambda>t. now - t < 86400 * 1000000) (rl key))"

section \<open>Offer broadcaster: send_to_masters (bot.py 2554-2637)\<close>

text \<open>
  The string operations of cat_match on code points: \<open>str.split(sep)\<close>, \<open>str.strip()\<close>,
  \<open>re.sub\<close> deleting what is outside the two ranges U+0430..U+044F and U+0410..U+042F,
  \<open>str.lower()\<close> and the substring test \<open>a in b\<close>.
\<close>

fun split_on :: "nat \<Rightarrow> ustr \<Rightarrow> ustr list" where
  "split_on sep [] = [[]]"
| "split_on sep (x # xs) =
     (if x = sep then [] # split_on sep xs
      else (case split_on sep xs of w # ws \<Rightarrow> (x # w) # ws | [] \<Rightarrow> [[x]]))"

definition is_space :: "nat \<Rightarrow> bool" where
  "is_space c \<longleftrightarrow>
     (9 \<le> c \<and> c \<le> 13) \<or> (28 \<le> c \<and> c \<le> 32) \<or> c = 133 \<or> c = 160 \<or> c = 5760
     \<or> (8192 \<le> c \<and> c \<le> 8202) \<or> c = 8232 \<or> c = 8233 \<or> c = 8239 \<or> c = 8287 \<or> c = 12288"

definition strip :: "ustr \<Rightarrow> ustr" where
  "strip s = rev (dropWhile is_space (rev (dropWhile is_space s)))"

definition is_cyrillic :: "nat \<Rightarrow> bool" where
  "is_cyrillic c \<longleftrightarrow> (1072 \<le> c \<and> c \<le> 1103) \<or> (1040 \<le> c \<and> c \<le> 1071)"

text \<open>
  \<open>lower\<close> is only applied to what the substitution leaves, the 64 letters of the two
  ranges; there \<open>str.lower()\<close> moves U+0410..U+042F up by 32 and keeps the rest.
\<close>

definition lower_char :: "nat \<Rightarrow> nat" where
  "lower_char c = (if 1040 \<le> c \<and> c \<le> 1071 then c + 32 else c)"

definition clean_text :: "ustr \<Rightarrow> ustr" where
  "clean_text s = map lower_char (strip (filter is_cyrillic s))"

fun contains :: "ustr \<Rightarrow> ustr \<Rightarrow> bool" where
  "contains sub [] = (sub = [])"
| "contains sub (x # xs) = (prefix sub (x # xs) \<or> contains sub xs)"

definition master_cats :: "ustr \<Rightarrow> ustr list" where
  "master_cats cats_auto =
     filter (\<lambda>clean_cat. clean_cat \<noteq> [])
       (map (\<lambda>cat. clean_text (strip (case split_on 47 cat of w # ws \<Rightarrow> w | [] \<Rightarrow> [])))
            (split_on 44 cats_auto))"

definition cat_match :: "ustr option \<Rightarrow> ustr \<Rightarrow> bool" where
  "cat_match cats_auto request_category =
     (case cats_auto of
        None \<Rightarrow> False
      | Some cats \<Rightarrow>
          if cats = [] then False
          else (let clean_request = clean_text request_category
                in list_ex (\<lambda>mc. contains clean_request mc \<or> contains mc clean_request)
                     (master_cats cats)))"

definition level_top :: ustr where
  "level_top = [1058, 1054, 1055]"

definition level_verified :: ustr where
  "level_verified = [1042, 1077, 1088, 1080, 1092, 1080, 1094, 1080, 1088, 1086, 1074, 1072,
     1085, 1085, 1099, 1081]"

definition level_checked :: ustr where
  "level_checked = [1055, 1088, 1086, 1074, 1077, 1088, 1077, 1085, 1085, 1099, 1081]"

definition level_candidate :: ustr where
  "level_candidate = [1050, 1072, 1085, 1076, 1080, 1076, 1072, 1090]"

definition lvl_rank :: "ustr \<Rightarrow> int" where
  "lvl_rank level =
     (if level = level_top then 3
      else if level = level_verified then 2
      else if level = level_checked then 1
      else 0)"

definition sort_key_row :: "env \<Rightarrow> master \<Rightarrow> int \<times> int \<times> int" where
  "sort_key_row e r =
     (let pr = (if is_active e (m_priority_until r) then 1 else 0);
          sub = (if is_active e (m_sub_until r) then 1 else 0)
      in (- pr, - sub, - lvl_rank (m_level r)))"

text \<open>
  The SELECT has no ORDER BY. What it returns is the active rows in the order of the
  engine's scan (with \<open>idx_masters_active(is_active, level)\<close> of database.py 171 that is by
  level text, then rowid), or nothing when the call fails.
\<close>

definition select_active :: "env \<Rightarrow> db \<Rightarrow> master list" where
  "select_active e d =
     fetch_all e SM_select (sort_key (row_order e) (filter (\<lambda>m. m_is_active m = 1) (masters d)))"

text \<open>
  The rows that receive an offer: the fetched rows filtered by category, then
  \<open>sorted(rows, key=sort_key)[:5]\<close>. Python's sorted is stable, as is \<open>sort_key\<close> of the list
  library.
\<close>

definition survivors :: "env \<Rightarrow> db \<Rightarrow> ustr \<Rightarrow> master list" where
  "survivors e d category =
     filter (\<lambda>r. cat_match (m_categories_auto r) category) (select_active e d)"

definition select_masters :: "env \<Rightarrow> db \<Rightarrow> ustr \<Rightarrow> master list" where
  "select_masters e d category = take 5 (sort_key (sort_key_row e) (survivors e d category))"

definition insert_offer :: "int option \<Rightarrow> int \<Rightarrow> db \<Rightarrow> db" where
  "insert_offer request_id mid d =
     d\<lparr>offers := offers d @
          [\<lparr>o_id = seq_offers d + 1, o_request_id = request_id, o_master_id = mid,
            o_status = ''sent''\<rparr>],
       seq_offers := seq_offers d + 1\<rparr>"

definition deactivate :: "int \<Rightarrow> db \<Rightarrow> db" where
  "deactivate mid d =
     d\<lparr>masters := map (\<lambda>m. if m_id m = mid then m\<lparr>m_is_active := 0\<rparr> else m) (masters d)\<rparr>"

text \<open>
  The loop over the selected rows. The delivery is inside try/except; the bare
  \<open>db.commit()\<close> after the INSERT is not, so when it raises the loop ends there and the
  exception leaves send_to_masters and its caller.
\<close>

definition notify_master :: "env \<Rightarrow> db \<Rightarrow> master \<Rightarrow> db" where
  "notify_master e d r =
     (case deliver e (m_id r) of
        Blocked \<Rightarrow> execute e (SM_deactivate (m_id r)) (deactivate (m_id r)) d
      | Delivered \<Rightarrow> d
      | Other_error \<Rightarrow> d)"

fun offer_loop :: "env \<Rightarrow> int option \<Rightarrow> db \<Rightarrow> master list \<Rightarrow> bool \<times> db" where
  "offer_loop e request_id d [] = (True, d)"
| "offer_loop e request_id d (r # rows) =
     (let d1 = execute e (SM_insert (m_id r)) (insert_offer request_id (m_id r)) d
      in if commit_raises e (SM_insert (m_id r)) then (False, d1)
         else offer_loop e request_id (notify_master e d1 r) rows)"

text \<open>send_to_masters: the result says whether it returned (True) or raised (False).\<close>

definition send_to_masters :: "env \<Rightarrow> db \<Rightarrow> int option \<Rightarrow> ustr \<Rightarrow> bool \<times> db" where
  "send_to_masters e d request_id category =
     offer_loop e request_id d (select_masters e d category)"

section \<open>The remaining writers of the tables\<close>

text \<open>
  req_submit (bot.py 1974-2005): \<open>rid\<close> is None when execute returned None. The handler
  has no try block: when the bare \<open>db.commit()\<close> raises, nothing is broadcast.
\<close>

definition insert_request :: "ustr \<Rightarrow> ustr \<Rightarrow> string \<Rightarrow> int \<Rightarrow> db \<Rightarrow> db" where
  "insert_request contact category client_user_id now d =
     d\<lparr>requests := requests d @
          [\<lparr>r_id = seq_requests d + 1, r_status = ''new'', r_master_id = None,
            r_contact = contact, r_client_user_id = Some client_user_id, r_category = category,
            r_review_requested = 0, r_completed_at = None, r_created_at = now\<rparr>],
       seq_requests := seq_requests d + 1\<rparr>"

definition req_submit :: "env \<Rightarrow> db \<Rightarrow> string \<Rightarrow> ustr \<Rightarrow> ustr \<Rightarrow> db" where
  "req_submit e d uid contact category =
     (let rid = (if db_fails e RS_insert then None else Some (seq_requests d + 1));
          d1 = execute e RS_insert (insert_request contact category uid (utcnow e)) d
      in if commit_raises e RS_insert then d1
         else snd (send_to_masters e d1 rid category))"

text \<open>
  mf_verify_no (bot.py 2229-2258) and mf_face_photo (bot.py 2336-2378) are the two places
  that would insert a master. The column list of their INSERT names \<open>references\<close>. SQLite
  reads that as the keyword REFERENCES, so the statement does not parse: \<open>cur.execute\<close>
  raises on every call, \<open>execute\<close> returns None, \<open>mid\<close> is None, and no row is written.
  (The table has no such column either: the ALTER TABLE of migrate_db.py 110 fails in the
  same way.) \<open>insert_master\<close> is the row the statement describes; avg_rating and
  reviews_count, which it does not list, take the column defaults 5.0 and 0
  (database.py 182-183). A statement that the engine cannot parse is \<open>unparsable\<close>.
  mf_npd_doc (bot.py 2445-2473) raises the level.
\<close>

definition FREE_ORDERS_START :: int where
  "FREE_ORDERS_START = 3"

definition insert_master :: "string \<Rightarrow> ustr \<Rightarrow> ustr \<Rightarrow> ustr \<Rightarrow> db \<Rightarrow> db" where
  "insert_master contact level cats_auto skill_tier d =
     d\<lparr>masters := masters d @
          [\<lparr>m_id = seq_masters d + 1, m_contact = contact, m_level = level, m_is_active = 1,
            m_sub_until = None, m_priority_until = None, m_pin_until = None,
            m_free_orders_left = Some FREE_ORDERS_START, m_categories_auto = Some cats_auto,
            m_orders_completed = Some 0, m_skill_tier = skill_tier,
            m_avg_rating = 5, m_reviews_count = 0\<rparr>],
       seq_masters := seq_masters d + 1\<rparr>"

definition unparsable :: "(db \<Rightarrow> db) \<Rightarrow> db \<Rightarrow> db" where
  "unparsable stmt d = d"

definition mf_verify_no :: "env \<Rightarrow> db \<Rightarrow> string \<Rightarrow> ustr \<Rightarrow> db" where
  "mf_verify_no e d uid cats_auto =
     unparsable (insert_master uid level_candidate cats_auto tier_novice) d"

definition mf_face_photo :: "env \<Rightarrow> db \<Rightarrow> string \<Rightarrow> ustr \<Rightarrow> db" where
  "mf_face_photo e d uid cats_auto =
     (let skill_tier = calc_skill_tier e d (Some 0)
      in unparsable (insert_master uid level_checked cats_auto skill_tier) d)"

definition mf_npd_doc :: "env \<Rightarrow> db \<Rightarrow> int option \<Rightarrow> db" where
  "mf_npd_doc e d mid =
     execute e MF_npd
       (\<lambda>d. d\<lparr>masters := map (\<lambda>m. if Some (m_id m) = mid then m\<lparr>m_level := level_verified\<rparr> else m)
                              (masters d)\<rparr>) d"

text \<open>payment_done (bot.py 2536-2551): each grant runs from now and replaces the old one.\<close>

definition payment_done :: "env \<Rightarrow> db \<Rightarrow> string \<Rightarrow> string \<Rightarrow> db" where
  "payment_done e d uid payload =
     (if payload = ''sub_30d''
      then execute e PAY_update
             (\<lambda>d. d\<lparr>masters := map (\<lambda>m. if m_contact m = uid
                                           then m\<lparr>m_sub_until := Some (strftime e (utcnow e + 30 * 86400))\<rparr>
                                           else m) (masters d)\<rparr>) d
      else if payload = ''priority_30d''
      then execute e PAY_update
             (\<lambda>d. d\<lparr>masters := map (\<lambda>m. if m_contact m = uid
                                           then m\<lparr>m_priority_until := Some (strftime e (utcnow e + 30 * 86400))\<rparr>
                                           else m) (masters d)\<rparr>) d
      else if payload = ''pin_7d''
      then execute e PAY_update
             (\<lambda>d. d\<lparr>masters := map (\<lambda>m. if m_contact m = uid
                                           then m\<lparr>m_pin_until := Some (strftime e (utcnow e + 7 * 86400))\<rparr>
                                           else m) (masters d)\<rparr>) d
      else d)"

text \<open>delete_profile (bot.py 1220-1240).\<close>

definition delete_profile :: "env \<Rightarrow> db \<Rightarrow> string \<Rightarrow> db" where
  "delete_profile e d uid =
     (let d1 = execute e DP_masters
                 (\<lambda>d. d\<lparr>masters := filter (\<lambda>m. m_contact m \<noteq> uid) (masters d)\<rparr>) d
      in execute e DP_requests
           (\<lambda>d. d\<lparr>requests := filter (\<lambda>r. \<not> (r_contact r = ustr_of uid
                                                \<or> r_client_user_id r = Some uid)) (requests d)\<rparr>) d1)"

section \<open>Executions\<close>

text \<open>
  One event is one run of a handler that writes the tables, with its arguments. The handlers
  run on one event loop; the model runs each to its end before the next starts. In a claim
  there is no await between reading the request's status and the writes of the debit and of
  the assignment.
\<close>

datatype event =
    Submit_request string ustr ustr
  | Register_candidate string ustr
  | Register_checked string ustr
  | Upgrade_verified "int option"
  | Payment string string
  | Offer_action string string int int
  | Complete_order string int
  | Confirm int string
  | Rate string int int
  | Comment int ustr
  | Delete_profile string
  | Sweep "nat \<Rightarrow> env"

type_synonym world = "limiter \<times> db"

fun handle :: "env \<Rightarrow> event \<Rightarrow> world \<Rightarrow> world" where
  "handle e (Submit_request uid contact category) (rl, d) = (rl, req_submit e d uid contact category)"
| "handle e (Register_candidate uid cats) (rl, d) = (rl, mf_verify_no e d uid cats)"
| "handle e (Register_checked uid cats) (rl, d) = (rl, mf_face_photo e d uid cats)"
| "handle e (Upgrade_verified mid) (rl, d) = (rl, mf_npd_doc e d mid)"
| "handle e (Payment uid payload) (rl, d) = (rl, payment_done e d uid payload)"
| "handle e (Offer_action uid action req_id master_id) (rl, d) =
     snd (offer_actions e rl d uid action req_id master_id)"
| "handle e (Complete_order uid request_id) (rl, d) = (rl, snd (complete_order e d uid request_id))"
| "handle e (Confirm request_id answer) (rl, d) = (rl, snd (client_confirmation e d request_id answer))"
| "handle e (Rate uid request_id rating) (rl, d) = (rl, snd (process_rating e d uid request_id rating))"
| "handle e (Comment request_id txt) (rl, d) = (rl, comp_text e d request_id txt)"
| "handle e (Delete_profile uid) (rl, d) = (rl, delete_profile e d uid)"
| "handle e (Sweep es) (rl, d) = (cleanup_old_entries (local_now e) rl, periodic_cleanup e es d)"

fun run :: "(env \<times> event) list \<Rightarrow> world \<Rightarrow> world" where
  "run [] w = w"
| "run ((e, ev) # evs) w = run evs (handle e ev w)"

definition initial_world :: world where
  "initial_world = (\<lambda>key. [], empty_db)"

section \<open>Named conditions of a claim\<close>

text \<open>
  What the take branch of offer_actions reads before it decides: whether the limiter admits
  the caller, the status of the request, whether the caller's first master record is the one
  named in the callback data, and the row from which the entitlement is read.
\<close>

definition rate_ok :: "env \<Rightarrow> limiter \<Rightarrow> string \<Rightarrow> bool" where
  "rate_ok e rl uid = fst (check_limit rl (local_now e) uid ''offer_actions'' 10 3600)"

definition request_status :: "env \<Rightarrow> db \<Rightarrow> int \<Rightarrow> string option" where
  "request_status e d req_id =
     map_option r_status
       (fetch_one e OA_select_request (filter (\<lambda>r. r_id r = req_id) (requests d)))"

definition owns :: "env \<Rightarrow> db \<Rightarrow> string \<Rightarrow> int \<Rightarrow> bool" where
  "owns e d uid master_id =
     (case fetch_one e OA_select_current (filter (\<lambda>m. m_contact m = uid) (masters d)) of
        None \<Rightarrow> False
      | Some current_master \<Rightarrow> m_id current_master = master_id)"

definition entitlement_row :: "env \<Rightarrow> db \<Rightarrow> int \<Rightarrow> master option" where
  "entitlement_row e d master_id =
     fetch_one e OA_select_master (filter (\<lambda>m. m_id m = master_id) (masters d))"

section \<open>The specification's notions\<close>

text \<open>
  Section 4.3: a timestamp field denotes an active grant iff it is present and strictly
  later than the current time; malformed or absent timestamps are inactive.
\<close>

definition grant_active :: "env \<Rightarrow> string option \<Rightarrow> bool" where
  "grant_active e until =
     (case until of
        None \<Rightarrow> False
      | Some s \<Rightarrow> s \<noteq> [] \<and> (case strptime e s of None \<Rightarrow> False | Some t \<Rightarrow> utcnow e < t))"

text \<open>
  Section 4.1: the composite rank, (a) active priority boost, (b) active subscription,
  (c) level rank Verified > Checked > Candidate (the code also knows a level above
  Verified, and gives every other text the rank of Candidate). Triples are compared
  lexicographically.
\<close>

definition level_rank :: "ustr \<Rightarrow> int" where
  "level_rank level =
     (if level = level_top then 3 else if level = level_verified then 2
      else if level = level_checked then 1 else 0)"

definition rank :: "env \<Rightarrow> master \<Rightarrow> int \<times> int \<times> int" where
  "rank e r =
     ((if grant_active e (m_priority_until r) then 1 else 0),
      (if grant_active e (m_sub_until r) then 1 else 0),
      level_rank (m_level r))"

text \<open>
  Section 4.1 and section 9: the normalized form of a category text keeps its letters and
  lowers them; a master's entry is cut at the sub-category suffix first. Letters are what
  the code's pattern keeps, U+0410 to U+044F. Two normalized texts match when one occurs
  in the other as a contiguous part.
\<close>

definition normalized :: "ustr \<Rightarrow> ustr" where
  "normalized s = map lower_char (filter is_cyrillic s)"

definition main_category :: "ustr \<Rightarrow> ustr" where
  "main_category entry = takeWhile (\<lambda>c. c \<noteq> 47) entry"

definition categories_match :: "ustr option \<Rightarrow> ustr \<Rightarrow> bool" where
  "categories_match cats category =
     (case cats of
        None \<Rightarrow> False
      | Some entries \<Rightarrow>
          list_ex (\<lambda>entry. normalized (main_category entry) \<noteq> []
                      \<and> (sublist (normalized category) (normalized (main_category entry))
                         \<or> sublist (normalized (main_category entry)) (normalized category)))
            (split_on 44 entries))"

text \<open>
  Section 4.5 and section 8: the arithmetic mean of a master's ratings, and a value that is
  this mean rounded to one decimal: a multiple of one tenth at most half a tenth away. The
  words leave open which neighbour is taken when the mean lies exactly between two.
\<close>

definition mean :: "int list \<Rightarrow> rat" where
  "mean rs = of_int (sum_list rs) / of_nat (length rs)"

definition rounded_to_1_decimal :: "rat \<Rightarrow> rat \<Rightarrow> bool" where
  "rounded_to_1_decimal v q \<longleftrightarrow> of_int \<lfloor>v * 10\<rfloor> = v * 10 \<and> \<bar>v - q\<bar> \<le> 1 / 20"

definition ratings_of :: "db \<Rightarrow> int \<Rightarrow> int list" where
  "ratings_of d mid = map rv_rating (filter (\<lambda>v. rv_master_id v = mid) (reviews d))"

definition stats_recomputed :: "db \<Rightarrow> int \<Rightarrow> bool" where
  "stats_recomputed d mid =
     list_all (\<lambda>m. m_id m = mid \<longrightarrow>
                 m_reviews_count m = int (length (ratings_of d mid))
                 \<and> rounded_to_1_decimal (m_avg_rating m) (mean (ratings_of d mid)))
              (masters d)"

section \<open>Properties of states and of runs\<close>

text \<open>
  The free-order balance of a master row is in order when it is NULL or not negative.
  \<open>masters_inv\<close> adds what makes this inductive: id is the primary key of masters.
\<close>

definition free_ok :: "master \<Rightarrow> bool" where
  "free_ok m = (case m_free_orders_left m of None \<Rightarrow> True | Some n \<Rightarrow> 0 \<le> n)"

definition masters_inv :: "db \<Rightarrow> bool" where
  "masters_inv d \<longleftrightarrow> distinct (map m_id (masters d)) \<and> list_all free_ok (masters d)"

definition mview :: "db \<Rightarrow> (int \<times> int option) list" where
  "mview d = map (\<lambda>m. (m_id m, m_free_orders_left m)) (masters d)"

text \<open>
  The CHECK constraint of reviews.rating holds in a table, and the reviews are few enough
  for the sum and the number of a master's ratings to be exact as doubles.
\<close>

definition ratings_ok :: "db \<Rightarrow> bool" where
  "ratings_ok d \<longleftrightarrow>
     list_all (\<lambda>v. 1 \<le> rv_rating v \<and> rv_rating v \<le> 5) (reviews d)
     \<and> length (reviews d) < 2 ^ 46"

text \<open>
  The statistics of a rating are recomputed and stored: the aggregate query returns, the
  UPDATE is not refused, and the commit before them does not raise.
\<close>

definition stats_stored :: "env \<Rightarrow> bool" where
  "stats_stored e \<longleftrightarrow>
     \<not> db_fails e UMS_select \<and> \<not> write_lost e UMS_update \<and> \<not> commit_raises e PR_insert"

text \<open>The offers of request \<open>r\<close> that are marked \<open>taken\<close>.\<close>

definition taken_for :: "db \<Rightarrow> int \<Rightarrow> offer list" where
  "taken_for d r = filter (\<lambda>ofr. o_request_id ofr = Some r \<and> o_status ofr = ''taken'') (offers d)"

text \<open>
  What keeps "at most one taken offer per request" inductive. \<open>ids_inv\<close>: the ids of master
  rows are distinct, ids come from the sequences, and no two offers of a request name the
  same master. \<open>taken_inv\<close>: a request with a taken offer is not \<open>new\<close>, and the taken offers
  of a request name one master. \<open>quiet d d'\<close> relates a state to a later one in which the
  offers are untouched, no row was inserted and no request went back to \<open>new\<close>.
\<close>

definition ids_inv :: "db \<Rightarrow> bool" where
  "ids_inv d \<longleftrightarrow>
     distinct (map m_id (masters d))
     \<and> list_all (\<lambda>m. m_id m \<le> seq_masters d) (masters d)
     \<and> list_all (\<lambda>q. r_id q \<le> seq_requests d) (requests d)
     \<and> list_all (\<lambda>ofr. case o_request_id ofr of None \<Rightarrow> True | Some r \<Rightarrow> r \<le> seq_requests d)
          (offers d)
     \<and> distinct (map (\<lambda>ofr. (o_request_id ofr, o_master_id ofr))
                   (filter (\<lambda>ofr. o_request_id ofr \<noteq> None) (offers d)))"

definition taken_inv :: "db \<Rightarrow> bool" where
  "taken_inv d \<longleftrightarrow>
     (\<forall>ofr \<in> set (offers d). \<forall>q \<in> set (requests d).
         o_status ofr = ''taken'' \<and> o_request_id ofr = Some (r_id q) \<longrightarrow> r_status q \<noteq> ''new'')
     \<and> (\<forall>o1 \<in> set (offers d). \<forall>o2 \<in> set (offers d). \<forall>r.
           o_status o1 = ''taken'' \<and> o_status o2 = ''taken''
           \<and> o_request_id o1 = Some r \<and> o_request_id o2 = Some r
           \<longrightarrow> o_master_id o1 = o_master_id o2)"

definition offers_inv :: "db \<Rightarrow> bool" where
  "offers_inv d \<longleftrightarrow> ids_inv d \<and> taken_inv d"

definition quiet :: "db \<Rightarrow> db \<Rightarrow> bool" where
  "quiet d d' \<longleftrightarrow>
     offers d' = offers d \<and> seq_requests d' = seq_requests d \<and> seq_masters d' = seq_masters d
     \<and> subseq (map m_id (masters d')) (map m_id (masters d))
     \<and> (\<forall>q' \<in> set (requests d'). \<exists>q \<in> set (requests d).
           r_id q = r_id q' \<and> (r_status q' = ''new'' \<longrightarrow> r_status q = ''new''))"

text \<open>
  A run in which no status write of a claim is refused by the store, and a batch of takes
  on one request handled one after another, each with its own environment, caller and
  master id.
\<close>

definition assign_kept :: "(env \<times> event) list \<Rightarrow> bool" where
  "assign_kept evs = list_all (\<lambda>(e, ev). \<not> write_lost e OA_assign) evs"

fun claims :: "(env \<times> string \<times> int) list \<Rightarrow> int \<Rightarrow> limiter \<Rightarrow> db \<Rightarrow> offer_reply list" where
  "claims [] req_id rl d = []"
| "claims ((e, uid, master_id) # rest) req_id rl d =
     (case offer_actions e rl d uid ''take'' req_id master_id of
        (reply, rl', d') \<Rightarrow> reply # claims rest req_id rl' d')"

definition entitled :: "env \<Rightarrow> db \<Rightarrow> int \<Rightarrow> bool" where
  "entitled e d master_id =
     (case entitlement_row e d master_id of
        None \<Rightarrow> False
      | Some m \<Rightarrow> is_active e (m_sub_until m)
                  \<or> (case m_free_orders_left m of None \<Rightarrow> 0 | Some n \<Rightarrow> n) > 0)"

text \<open>
  A claim that reaches the status check: the store answers the read of the request, the
  status write is not refused, the two Telegram calls do not raise, the caller owns the
  master record, and the limiter has room for this take after \<open>n\<close> earlier takes of the
  batch. \<open>proper_claims\<close> says so for a batch, counting the takes.
\<close>

definition proper_claim :: "limiter \<Rightarrow> db \<Rightarrow> nat \<Rightarrow> env \<times> string \<times> int \<Rightarrow> bool" where
  "proper_claim rl d n c =
     (case c of (e, uid, master_id) \<Rightarrow>
        \<not> db_fails e OA_select_request \<and> \<not> write_lost e OA_assign
        \<and> \<not> tg_fails e TG_claim_edit \<and> \<not> tg_fails e TG_claim_details
        \<and> owns e d uid master_id
        \<and> length (rl (uid, ''offer_actions'')) + n < 10)"

fun proper_claims :: "limiter \<Rightarrow> db \<Rightarrow> nat \<Rightarrow> (env \<times> string \<times> int) list \<Rightarrow> bool" where
  "proper_claims rl d n [] = True"
| "proper_claims rl d n (c # cs) = (proper_claim rl d n c \<and> proper_claims rl d (Suc n) cs)"

section \<open>Example states\<close>

text \<open>
  An environment in which nothing fails and the masters are scanned through the index on
  (is_active, level); one in which the store refuses the status write of a claim; and the
  scenario of the specification: request 1 in category "Remont" (in Cyrillic), offered to
  master 1 with a subscription, to master 2 with three free orders and to master 3 with
  none.
\<close>

definition env0 :: env where
  "env0 = \<lparr>utcnow = 1793788800,
     strptime = (\<lambda>s. if s = ''2030-01-01 00:00:00'' then Some 1893456000
                    else if s = ''2020-01-01 00:00:00'' then Some 1577836800 else None),
     strftime = (\<lambda>t. ''2030-01-01 00:00:00''),
     local_now = 1793788800000000,
     db_outcome = (\<lambda>s. Done),
     commit_raises = (\<lambda>s. False),
     tg_fails = (\<lambda>s. False),
     deliver = (\<lambda>mid. Delivered),
     row_order = m_level\<rparr>"

definition env_assign_fails :: env where
  "env_assign_fails = env0\<lparr>db_outcome := (\<lambda>s. if s = OA_assign then Refused else Done)\<rparr>"

definition rl0 :: limiter where
  "rl0 = (\<lambda>key. [])"

definition cat_remont :: ustr where
  "cat_remont = [1056, 1077, 1084, 1086, 1085, 1090]"

definition ex_master :: "int \<Rightarrow> string \<Rightarrow> string option \<Rightarrow> int \<Rightarrow> master" where
  "ex_master i contact sub free =
     \<lparr>m_id = i, m_contact = contact, m_level = level_candidate, m_is_active = 1,
      m_sub_until = sub, m_priority_until = None, m_pin_until = None,
      m_free_orders_left = Some free, m_categories_auto = Some cat_remont,
      m_orders_completed = Some 0, m_skill_tier = tier_novice,
      m_avg_rating = 5, m_reviews_count = 0\<rparr>"

definition ex_request :: "string \<Rightarrow> int option \<Rightarrow> request" where
  "ex_request st mid =
     \<lparr>r_id = 1, r_status = st, r_master_id = mid, r_contact = ustr_of ''+70000000000'',
      r_client_user_id = Some ''900'', r_category = cat_remont, r_review_requested = 0,
      r_completed_at = None, r_created_at = 1793780000\<rparr>"

definition ex_offer :: "int \<Rightarrow> int \<Rightarrow> string \<Rightarrow> offer" where
  "ex_offer i mid st = \<lparr>o_id = i, o_request_id = Some 1, o_master_id = mid, o_status = st\<rparr>"

definition ex_masters :: "master list" where
  "ex_masters = [ex_master 1 ''101'' (Some ''2030-01-01 00:00:00'') 3,
                 ex_master 2 ''102'' None 3,
                 ex_master 3 ''103'' None 0]"

definition db_new :: db where
  "db_new = \<lparr>requests = [ex_request ''new'' None], masters = ex_masters,
     offers = [ex_offer 1 1 ''sent'', ex_offer 2 2 ''sent'', ex_offer 3 3 ''sent''],
     reviews = [], seq_requests = 1, seq_masters = 3, seq_offers = 3, seq_reviews = 0\<rparr>"

definition db_assigned :: db where
  "db_assigned = \<lparr>requests = [ex_request ''assigned'' (Some 1)], masters = ex_masters,
     offers = [ex_offer 1 1 ''taken'', ex_offer 2 2 ''sent'', ex_offer 3 3 ''sent''],
     reviews = [], seq_requests = 1, seq_masters = 3, seq_offers = 3, seq_reviews = 0\<rparr>"

text \<open>Request 1 still \<open>new\<close>, after master 1 has skipped its offer.\<close>

definition db_skipped :: db where
  "db_skipped = db_new\<lparr>offers := [ex_offer 1 1 ''skipped'', ex_offer 2 2 ''sent'', ex_offer 3 3 ''sent'']\<rparr>"

text \<open>
  Master 2 with 19 completed orders and its order awaiting confirmation; and request 1
  completed by master 1 with one review.
\<close>

definition db_19 :: db where
  "db_19 = \<lparr>requests = [ex_request ''pending_confirmation'' (Some 2)],
     masters = [(ex_master 2 ''102'' None 2)\<lparr>m_orders_completed := Some 19\<rparr>],
     offers = [ex_offer 2 2 ''taken''],
     reviews = [], seq_requests = 1, seq_masters = 2, seq_offers = 2, seq_reviews = 0\<rparr>"

definition db_rated :: db where
  "db_rated = \<lparr>requests = [ex_request ''completed'' (Some 1)], masters = ex_masters,
     offers = [ex_offer 1 1 ''taken'', ex_offer 2 2 ''sent'', ex_offer 3 3 ''sent''],
     reviews = [\<lparr>rv_id = 1, rv_request_id = 1, rv_master_id = 1, rv_client_id = ustr_of ''900'',
                 rv_rating = 5, rv_comment = None\<rparr>],
     seq_requests = 1, seq_masters = 3, seq_offers = 3, seq_reviews = 1\<rparr>"

text \<open>Master 1 with the ratings 5, 4 and 4, stored as 4.3 over 3 reviews.\<close>

definition ex_review :: "int \<Rightarrow> int \<Rightarrow> review" where
  "ex_review i rating =
     \<lparr>rv_id = i, rv_request_id = 1, rv_master_id = 1, rv_client_id = ustr_of ''900'',
      rv_rating = rating, rv_comment = None\<rparr>"

definition db_three_ratings :: db where
  "db_three_ratings = \<lparr>requests = [ex_request ''completed'' (Some 1)],
     masters = [(ex_master 1 ''101'' None 3)\<lparr>m_avg_rating := 43 / 10, m_reviews_count := 3\<rparr>],
     offers = [ex_offer 1 1 ''taken''],
     reviews = [ex_review 1 5, ex_review 2 4, ex_review 3 4],
     seq_requests = 1, seq_masters = 1, seq_offers = 1, seq_reviews = 3\<rparr>"

text \<open>
  Ten masters for a broadcast of a request in category "Remont", written with an emoji and
  a space before the word. Master 2 is inactive, master 3 has an empty category text,
  master 4 has another category; masters 5 (Checked, with a sub-category and a second
  entry), 8 (Verified), 6 (subscription), 7 (priority boost), 9 (a priority boost that has
  run out), 1 and 10 match.
\<close>

definition cat_uborka :: ustr where
  "cat_uborka = [1059, 1073, 1086, 1088, 1082, 1072]"

definition cat_request_remont :: ustr where
  "cat_request_remont = [128736, 32, 1056, 1077, 1084, 1086, 1085, 1090]"

definition cats_remont_sub_uborka :: ustr where
  "cats_remont_sub_uborka =
     [1056, 1077, 1084, 1086, 1085, 1090, 47, 1101, 1083, 1077, 1082, 1090, 1088, 1080, 1082, 1072,
      44, 32, 1059, 1073, 1086, 1088, 1082, 1072]"

definition db_broadcast :: db where
  "db_broadcast = \<lparr>requests = [ex_request ''new'' None],
     masters = [ex_master 1 ''101'' None 3,
                (ex_master 2 ''102'' None 3)\<lparr>m_is_active := 0,
                   m_priority_until := Some ''2030-01-01 00:00:00''\<rparr>,
                (ex_master 3 ''103'' None 3)\<lparr>m_level := level_verified,
                   m_categories_auto := Some []\<rparr>,
                (ex_master 4 ''104'' None 3)\<lparr>m_level := level_checked,
                   m_categories_auto := Some cat_uborka\<rparr>,
                (ex_master 5 ''105'' None 3)\<lparr>m_level := level_checked,
                   m_categories_auto := Some cats_remont_sub_uborka\<rparr>,
                ex_master 6 ''106'' (Some ''2030-01-01 00:00:00'') 3,
                (ex_master 7 ''107'' None 3)\<lparr>m_priority_until := Some ''2030-01-01 00:00:00''\<rparr>,
                (ex_master 8 ''108'' None 3)\<lparr>m_level := level_verified\<rparr>,
                (ex_master 9 ''109'' None 3)\<lparr>m_priority_until := Some ''2020-01-01 00:00:00''\<rparr>,
                ex_master 10 ''110'' None 3],
     offers = [], reviews = [],
     seq_requests = 1, seq_masters = 10, seq_offers = 0, seq_reviews = 0\<rparr>"
section \<open>Basic facts about the store\<close>

lemmas ex_defs = env0_def db_fails_def write_lost_def rl0_def cat_remont_def ex_master_def
  ex_request_def ex_offer_def ex_masters_def db_new_def db_assigned_def level_candidate_def
  tier_novice_def

lemmas ex2_defs = db_rated_def

lemmas mc_defs = mark_request_completed_def request_review_def request_review_after_flag_def
  calc_skill_tier_def set_completed_def bump_orders_completed_def set_review_requested_def
  fetch_one_def execute_def

lemmas pr_defs = process_rating_def rated_def update_master_stats_def master_ratings_def
  set_master_stats_def insert_review_def fetch_one_def execute_def

lemmas oa_defs = offer_actions_def offer_take_def claim_accepted_def check_limit_def fetch_one_def
  execute_def is_active_def set_offer_status_def debit_free_order_def assign_request_def

lemma fetch_one_SomeD: "fetch_one e s rows = Some r \<Longrightarrow> r \<in> set rows \<and> \<not> db_fails e s"
  by (auto simp: fetch_one_def split: if_splits list.splits)

lemma fetch_one_filter_SomeD:
  "fetch_one e s (filter P rows) = Some r \<Longrightarrow> r \<in> set rows \<and> P r \<and> \<not> db_fails e s"
  using fetch_one_SomeD[of e s "filter P rows" r] by auto

lemma process_rating_found:
  assumes "fetch_one e PR_select_request (filter (\<lambda>r. r_id r = request_id) (requests d)) = Some request"
    and "\<not> commit_raises e PR_insert"
  shows "snd (process_rating e d uid request_id rating)
     = update_master_stats e (rated e d uid request_id rating (r_master_id request)) (r_master_id request)"
  using assms by (simp add: process_rating_def Let_def rated_def)

lemma rated_cases:
  "rated e d uid request_id rating master_id = d
   \<or> (\<exists>mid. master_id = Some mid
        \<and> rated e d uid request_id rating master_id
            = insert_review request_id mid (ustr_of uid) rating d)"
  by (auto simp: rated_def execute_def split: option.splits)

lemma claim_accepted_result:
  "requests (snd (claim_accepted e d req_id master_id))
     = (if write_lost e OA_assign then requests d else requests (assign_request master_id req_id d))"
  "masters (snd (claim_accepted e d req_id master_id)) = masters d"
  "fst (claim_accepted e d req_id master_id) \<in> {Claimed, Raised}"
  "fst (claim_accepted e d req_id master_id) = Raised
     \<Longrightarrow> tg_fails e TG_claim_edit \<or> tg_fails e TG_claim_details"
  "\<not> tg_fails e TG_claim_edit \<Longrightarrow> \<not> tg_fails e TG_claim_details
     \<Longrightarrow> fst (claim_accepted e d req_id master_id) = Claimed"
  "offers (snd (claim_accepted e d req_id master_id))
     = (if fst (claim_accepted e d req_id master_id) = Claimed \<and> \<not> write_lost e OA_taken
        then offers (set_offer_status ''taken'' req_id master_id d) else offers d)"
  by (auto simp: claim_accepted_def Let_def execute_def assign_request_def set_offer_status_def
           split: option.splits if_splits)

section \<open>Claims on a request that is no longer new\<close>

lemma offer_take_non_new:
  assumes "status \<noteq> ''new''"
  shows "snd (offer_take e d uid status req_id master_id) = d"
    and "fst (offer_take e d uid status req_id master_id) \<in> {Auth_error, Already_taken}"
    and "owns e d uid master_id \<Longrightarrow> fst (offer_take e d uid status req_id master_id) = Already_taken"
  using assms by (auto simp: offer_take_def owns_def split: option.splits)

lemma offer_actions_limited:
  "\<not> rate_ok e rl uid \<Longrightarrow>
     fst (offer_actions e rl d uid action req_id master_id) = Too_many_actions
     \<and> snd (snd (offer_actions e rl d uid action req_id master_id)) = d"
  by (auto simp: offer_actions_def rate_ok_def split: prod.splits bool.splits)

lemma offer_actions_take:
  assumes "rate_ok e rl uid" and "request_status e d req_id = Some st"
  shows "fst (offer_actions e rl d uid ''take'' req_id master_id)
           = fst (offer_take e d uid st req_id master_id)"
    and "snd (snd (offer_actions e rl d uid ''take'' req_id master_id))
           = snd (offer_take e d uid st req_id master_id)"
    and "fst (snd (offer_actions e rl d uid ''take'' req_id master_id))
           = snd (check_limit rl (local_now e) uid ''offer_actions'' 10 3600)"
  using assms
  by (auto simp: offer_actions_def rate_ok_def request_status_def
           split: prod.splits bool.splits option.splits)

text \<open>
  C1 (as amended). A take on a request whose status, as the handler reads it, is not
  \<open>new\<close> changes no table, whoever sends it, and is answered with the limiter's refusal, the
  authorization error or "already taken". The answer is "already taken" when the limiter
  admits the caller and the caller's master record is the one named in the offer: the
  authorization check comes before the status check.
\<close>

theorem take_on_non_new_request:
  assumes "request_status e d req_id = Some st" and "st \<noteq> ''new''"
  shows "snd (snd (offer_actions e rl d uid ''take'' req_id master_id)) = d
    \<and> fst (offer_actions e rl d uid ''take'' req_id master_id)
        \<in> {Too_many_actions, Auth_error, Already_taken}
    \<and> (rate_ok e rl uid \<and> owns e d uid master_id
       \<longrightarrow> fst (offer_actions e rl d uid ''take'' req_id master_id) = Already_taken)"
proof (cases "rate_ok e rl uid")
  case False
  from offer_actions_limited[OF False] False show ?thesis by simp
next
  case True
  from offer_actions_take[OF True assms(1)] offer_take_non_new[OF assms(2)]
  show ?thesis by simp
qed

theorem take_on_non_new_request_witness:
  "request_status env0 db_assigned 1 = Some ''assigned'' \<and> ''assigned'' \<noteq> ''new''
   \<and> rate_ok env0 rl0 ''102'' \<and> owns env0 db_assigned ''102'' 2
   \<and> offer_actions env0 rl0 db_assigned ''102'' ''take'' 1 2
       = (Already_taken, rl0((''102'', ''offer_actions'') := [1793788800000000]), db_assigned)"
proof -
  have h1: "request_status env0 db_assigned 1 = Some ''assigned''"
    by (simp add: request_status_def fetch_one_def ex_defs)
  have h2: "''assigned'' \<noteq> ''new''" by simp
  have h3: "rate_ok env0 rl0 ''102''" by (simp add: rate_ok_def check_limit_def ex_defs)
  have h4: "owns env0 db_assigned ''102'' 2" by (simp add: owns_def fetch_one_def ex_defs)
  have h5: "fst (snd (offer_actions env0 rl0 db_assigned ''102'' ''take'' 1 2))
       = rl0((''102'', ''offer_actions'') := [1793788800000000])"
    by (simp add: ex_defs oa_defs)
  from take_on_non_new_request[OF h1 h2, of rl0 "''102''" 2] h1 h3 h4 h5
  show ?thesis by (metis h2 prod.collapse)
qed

text \<open>
  The claim as stated fails for a caller who does not own the offer: master 2's account
  clicking an offer made to master 1 on the assigned request 1 gets the authorization error.
\<close>

theorem unauthorised_take_counterexample:
  "request_status env0 db_assigned 1 = Some ''assigned''
   \<and> fst (offer_actions env0 rl0 db_assigned ''102'' ''take'' 1 1) = Auth_error"
  by (simp add: request_status_def ex_defs oa_defs)

section \<open>Rounding\<close>

lemma floor_rat_numeral:
  "\<lfloor>numeral a / numeral b :: rat\<rfloor> = numeral a div numeral b"
  using floor_divide_of_int_eq[of "numeral a" "numeral b", where ?'a = rat] by simp

lemma ceiling_rat_numeral:
  "\<lceil>numeral a / numeral b :: rat\<rceil> = - (- numeral a div numeral b)"
  using floor_divide_of_int_eq[of "- numeral a" "numeral b", where ?'a = rat]
  by (simp add: ceiling_def)

lemmas fl_defs = sql_avg_def py_round1_def to_double_def exponent_def ilog2.simps pow2_def
  round_half_even_def Let_def floor_rat_numeral ceiling_rat_numeral

text \<open>
  What the two roundings do at ties. The mean 4.25 is a double, and the tie goes to the
  even digit; 4.35 and 1.35 are not, and the nearest doubles lie below and above them.
\<close>

lemma rounding_at_ties:
  "py_round1 (sql_avg [5, 4, 4, 4]) = 42 / 10
   \<and> mean [5, 5, 5, 5, 5, 5, 5, 4, 4, 4, 4, 4, 4, 4, 4, 4, 4, 4, 4, 4] = 435 / 100
   \<and> py_round1 (sql_avg [5, 5, 5, 5, 5, 5, 5, 4, 4, 4, 4, 4, 4, 4, 4, 4, 4, 4, 4, 4]) = 43 / 10
   \<and> mean [2, 2, 2, 2, 2, 2, 2, 1, 1, 1, 1, 1, 1, 1, 1, 1, 1, 1, 1, 1] = 135 / 100
   \<and> py_round1 (sql_avg [2, 2, 2, 2, 2, 2, 2, 1, 1, 1, 1, 1, 1, 1, 1, 1, 1, 1, 1, 1]) = 14 / 10"
  by (simp add: fl_defs mean_def)

lemma round_half_even_error: "\<bar>of_int (round_half_even q) - q\<bar> \<le> 1 / 2"
proof -
  have "of_int \<lfloor>q\<rfloor> \<le> q" "q < of_int \<lfloor>q\<rfloor> + 1" by linarith+
  then show ?thesis by (auto simp: round_half_even_def Let_def)
qed

lemma ilog2_small: "n < 8 \<Longrightarrow> ilog2 n \<le> 2"
proof -
  assume "n < 8"
  then have "n \<in> {0, 1, 2, 3, 4, 5, 6, 7}" by auto
  then show ?thesis by (auto simp: ilog2.simps)
qed

lemma ulp_small:
  assumes "1 \<le> q" and "q < 8"
  shows "0 < pow2 (exponent q - 52)" and "pow2 (exponent q - 52) \<le> 1 / 2 ^ 50"
proof -
  have "nat \<lfloor>q\<rfloor> < 8" using assms by (simp add: floor_less_iff nat_less_iff)
  then have "ilog2 (nat \<lfloor>q\<rfloor>) \<le> 2" by (rule ilog2_small)
  then have e: "exponent q \<le> 2" "0 \<le> exponent q" using assms by (simp_all add: exponent_def)
  show "0 < pow2 (exponent q - 52)" by (simp add: pow2_def)
  have "nat (52 - exponent q) \<ge> 50" using e by simp
  then have "(2::rat) ^ 50 \<le> 2 ^ nat (52 - exponent q)"
    by (intro power_increasing) simp_all
  then show "pow2 (exponent q - 52) \<le> 1 / 2 ^ 50"
    using e by (simp add: pow2_def frac_le)
qed

lemma to_double_error:
  assumes "1 \<le> q" and "q < 8"
  shows "\<bar>to_double q - q\<bar> \<le> 1 / 2 ^ 51"
proof -
  define u where "u = pow2 (exponent q - 52)"
  from ulp_small[OF assms] have u: "0 < u" "u \<le> 1 / 2 ^ 50" by (simp_all add: u_def)
  have q: "\<bar>q\<bar> = q" "q \<noteq> 0" using assms by simp_all
  have td: "to_double q = of_int (round_half_even (q / u)) * u"
    using q by (simp add: to_double_def Let_def u_def)
  have "to_double q - q = (of_int (round_half_even (q / u)) - q / u) * u"
    using u(1) by (simp add: td field_simps)
  then have "\<bar>to_double q - q\<bar> = \<bar>of_int (round_half_even (q / u)) - q / u\<bar> * u"
    using u(1) by (simp add: abs_mult)
  also have "\<dots> \<le> (1 / 2) * u"
    using u(1) round_half_even_error[of "q / u"] by (intro mult_right_mono) simp_all
  also have "\<dots> \<le> (1 / 2) * (1 / 2 ^ 50)" using u(2) by simp
  finally show ?thesis by simp
qed

lemma nearest_tenth:
  fixes s :: int and n :: nat and k :: int and x :: rat
  assumes n: "0 < n" "n < 2 ^ 46"
    and x: "\<bar>x - of_int s / of_nat n\<bar> \<le> 1 / 2 ^ 51"
    and k: "\<bar>of_int k - 10 * x\<bar> \<le> 1 / 2"
  shows "\<bar>of_int k / 10 - of_int s / of_nat n\<bar> \<le> (1 / 20 :: rat)"
proof (rule ccontr)
  assume "\<not> ?thesis"
  then have far: "1 / 20 < \<bar>of_int k / 10 - (of_int s / of_nat n :: rat)\<bar>" by simp
  define t :: int where "t = 2 * k * int n - 20 * s"
  have nn: "(0::rat) < of_nat n" using n by simp
  have eq: "of_int k / 10 - of_int s / of_nat n = (of_int t / (20 * of_nat n) :: rat)"
    using nn by (simp add: t_def field_simps)
  from far have "of_nat n < \<bar>of_int t :: rat\<bar>"
    unfolding eq using nn by (simp add: abs_divide field_simps abs_mult)
  then have "(of_int (int n) :: rat) < of_int \<bar>t\<bar>" by simp
  then have "int n < \<bar>t\<bar>" by (simp only: of_int_less_iff)
  then have "int n + 1 \<le> \<bar>t\<bar>" by simp
  then have "(of_int (int n + 1) :: rat) \<le> of_int \<bar>t\<bar>" by (simp only: of_int_le_iff)
  then have "(of_nat n + 1 :: rat) \<le> \<bar>of_int t\<bar>" by simp
  then have "(of_nat n + 1) / (20 * of_nat n) \<le> \<bar>of_int t / (20 * of_nat n) :: rat\<bar>"
    using nn by (simp add: abs_divide divide_right_mono abs_mult)
  then have big: "1 / 20 + 1 / (20 * of_nat n) \<le> \<bar>of_int k / 10 - (of_int s / of_nat n :: rat)\<bar>"
    unfolding eq using nn by (simp add: field_simps)
  have "\<bar>of_int k / 10 - (of_int s / of_nat n :: rat)\<bar>
      \<le> \<bar>of_int k / 10 - x\<bar> + \<bar>x - of_int s / of_nat n\<bar>" by simp
  also have "\<bar>of_int k / 10 - x\<bar> = \<bar>of_int k - 10 * x\<bar> / 10" by (simp add: field_simps)
  finally have le: "\<bar>of_int k / 10 - (of_int s / of_nat n :: rat)\<bar> \<le> 1 / 20 + 1 / 2 ^ 51"
    using k x by simp
  have "(of_nat n :: rat) < of_nat (2 ^ 46)" using n(2) by (simp only: of_nat_less_iff)
  then have "(of_nat n :: rat) < 2 ^ 46" by simp
  then have "20 * (of_nat n :: rat) < 2 ^ 51" by simp
  then have "1 / 2 ^ 51 < 1 / (20 * of_nat n :: rat)" using nn by (simp add: frac_less2)
  with big le show False by simp
qed

text \<open>
  The stored average of a nonempty list of ratings from 1 to 5, fewer than \<open>2 ^ 46\<close> of them,
  is the mean rounded to one decimal.
\<close>

lemma stored_average_rounded:
  assumes "rs \<noteq> []" and "list_all (\<lambda>r. 1 \<le> r \<and> r \<le> 5) rs" and "length rs < 2 ^ 46"
  shows "rounded_to_1_decimal (py_round1 (sql_avg rs)) (mean rs)"
proof -
  let ?n = "length rs"
  have n: "0 < ?n" using assms(1) by simp
  have lo: "int ?n \<le> sum_list rs" and hi: "sum_list rs \<le> 5 * int ?n"
    using assms(2) by (induction rs) auto
  have nn: "(0::rat) < of_nat ?n" using n by simp
  have "(of_int (int ?n) :: rat) \<le> of_int (sum_list rs)" using lo by (simp only: of_int_le_iff)
  then have m1: "1 \<le> mean rs" using nn by (simp add: mean_def field_simps)
  have "(of_int (sum_list rs) :: rat) \<le> of_int (5 * int ?n)" using hi by (simp only: of_int_le_iff)
  then have m5: "mean rs \<le> 5" using nn by (simp add: mean_def field_simps)
  have x: "\<bar>sql_avg rs - of_int (sum_list rs) / of_nat ?n\<bar> \<le> 1 / 2 ^ 51"
    using to_double_error[of "mean rs"] m1 m5 by (simp add: sql_avg_def mean_def)
  have k: "\<bar>of_int (round_half_even (10 * sql_avg rs)) - 10 * sql_avg rs\<bar> \<le> 1 / 2"
    by (rule round_half_even_error)
  from nearest_tenth[OF n assms(3) x k]
  have "\<bar>py_round1 (sql_avg rs) - mean rs\<bar> \<le> 1 / 20" by (simp add: py_round1_def mean_def)
  moreover have "of_int \<lfloor>py_round1 (sql_avg rs) * 10\<rfloor> = py_round1 (sql_avg rs) * 10"
    by (simp add: py_round1_def)
  ultimately show ?thesis by (simp add: rounded_to_1_decimal_def)
qed

section \<open>The debit and the status transition of an accepted claim\<close>

text \<open>
  C3 (as amended). For an accepted claim of a master without an active subscription the
  debit and the status transition are two statements, run and committed one after the
  other by \<open>execute\<close>, which swallows every error. Afterwards the debit is in effect unless
  the store refused the debit statement, and the transition is in effect unless the store
  refused the transition statement, each whatever happened to the other and whether or not
  its own commit failed. No persistence error reaches the caller: the answer is the success
  answer, or the handler ends in the exception of a Telegram call; when no Telegram call
  raises it is the success answer. The offer is marked \<open>taken\<close> by a third statement, when
  the handler gets that far and the store does not refuse it.
\<close>

theorem claim_writes_are_separate:
  assumes "rate_ok e rl uid" and "request_status e d req_id = Some ''new''"
    and "owns e d uid master_id" and "entitlement_row e d master_id = Some m"
    and "\<not> is_active e (m_sub_until m)" and "m_free_orders_left m = Some n" and "0 < n"
  shows "masters (snd (snd (offer_actions e rl d uid ''take'' req_id master_id)))
        = (if write_lost e OA_debit then masters d else masters (debit_free_order master_id d))
    \<and> requests (snd (snd (offer_actions e rl d uid ''take'' req_id master_id)))
        = (if write_lost e OA_assign then requests d else requests (assign_request master_id req_id d))
    \<and> fst (offer_actions e rl d uid ''take'' req_id master_id) \<in> {Claimed, Raised}
    \<and> (fst (offer_actions e rl d uid ''take'' req_id master_id) = Raised
        \<longrightarrow> tg_fails e TG_claim_edit \<or> tg_fails e TG_claim_details)
    \<and> (\<not> tg_fails e TG_claim_edit \<and> \<not> tg_fails e TG_claim_details
        \<longrightarrow> fst (offer_actions e rl d uid ''take'' req_id master_id) = Claimed)
    \<and> offers (snd (snd (offer_actions e rl d uid ''take'' req_id master_id)))
        = (if fst (offer_actions e rl d uid ''take'' req_id master_id) = Claimed
              \<and> \<not> write_lost e OA_taken
           then offers (set_offer_status ''taken'' req_id master_id d) else offers d)"
proof -
  have own: "\<exists>cm. fetch_one e OA_select_current (filter (\<lambda>m. m_contact m = uid) (masters d)) = Some cm
      \<and> m_id cm = master_id"
    using assms(3) by (auto simp: owns_def split: option.splits)
  let ?d0 = "execute e OA_debit (debit_free_order master_id) d"
  have t: "offer_take e d uid ''new'' req_id master_id = claim_accepted e ?d0 req_id master_id"
    using own assms(4-7) by (auto simp: offer_take_def entitlement_row_def)
  have r: "fst (offer_actions e rl d uid ''take'' req_id master_id)
        = fst (claim_accepted e ?d0 req_id master_id)"
    "snd (snd (offer_actions e rl d uid ''take'' req_id master_id))
        = snd (claim_accepted e ?d0 req_id master_id)"
    using offer_actions_take[OF assms(1,2), where master_id=master_id] t by simp_all
  have m0: "masters ?d0
      = (if write_lost e OA_debit then masters d else masters (debit_free_order master_id d))"
    by (simp add: execute_def)
  have q0: "requests ?d0 = requests d" "offers ?d0 = offers d"
    by (simp_all add: execute_def debit_free_order_def)
  have q1: "requests (assign_request master_id req_id ?d0) = requests (assign_request master_id req_id d)"
    "offers (set_offer_status ''taken'' req_id master_id ?d0)
       = offers (set_offer_status ''taken'' req_id master_id d)"
    by (simp_all add: assign_request_def set_offer_status_def q0)
  note c = claim_accepted_result[of e ?d0 req_id master_id]
  show ?thesis unfolding r
    using c(1) c(2) c(3) c(4) c(5) c(6) by (simp only: m0 q0 q1) blast
qed

theorem claim_writes_are_separate_witness:
  "rate_ok env0 rl0 ''102'' \<and> request_status env0 db_new 1 = Some ''new''
   \<and> owns env0 db_new ''102'' 2 \<and> entitlement_row env0 db_new 2 = Some (ex_master 2 ''102'' None 3)
   \<and> fst (offer_actions env0 rl0 db_new ''102'' ''take'' 1 2) = Claimed
   \<and> map m_free_orders_left (masters (snd (snd (offer_actions env0 rl0 db_new ''102'' ''take'' 1 2))))
       = [Some 3, Some 2, Some 0]
   \<and> map r_status (requests (snd (snd (offer_actions env0 rl0 db_new ''102'' ''take'' 1 2))))
       = [''assigned'']
   \<and> map o_status (offers (snd (snd (offer_actions env0 rl0 db_new ''102'' ''take'' 1 2))))
       = [''sent'', ''taken'', ''sent'']"
proof -
  have h1: "rate_ok env0 rl0 ''102''" by (simp add: rate_ok_def check_limit_def ex_defs)
  have h2: "request_status env0 db_new 1 = Some ''new''"
    by (simp add: request_status_def fetch_one_def ex_defs)
  have h3: "owns env0 db_new ''102'' 2" by (simp add: owns_def fetch_one_def ex_defs)
  have h4: "entitlement_row env0 db_new 2 = Some (ex_master 2 ''102'' None 3)"
    by (simp add: entitlement_row_def fetch_one_def ex_defs)
  have h5: "\<not> is_active env0 (m_sub_until (ex_master 2 ''102'' None 3))"
    by (simp add: is_active_def ex_defs)
  have h6: "m_free_orders_left (ex_master 2 ''102'' None 3) = Some 3" by (simp add: ex_defs)
  have h7: "\<not> tg_fails env0 TG_claim_edit" "\<not> tg_fails env0 TG_claim_details"
    by (simp_all add: ex_defs)
  have m: "masters (debit_free_order 2 db_new)
      = [ex_master 1 ''101'' (Some ''2030-01-01 00:00:00'') 3, ex_master 2 ''102'' None 2,
         ex_master 3 ''103'' None 0]"
    by (simp add: debit_free_order_def ex_defs)
  have q: "requests (assign_request 2 1 db_new) = [ex_request ''assigned'' (Some 2)]"
    by (simp add: assign_request_def ex_defs)
  have o: "offers (set_offer_status ''taken'' 1 2 db_new)
      = [ex_offer 1 1 ''sent'', ex_offer 2 2 ''taken'', ex_offer 3 3 ''sent'']"
    by (simp add: set_offer_status_def ex_defs)
  have nf: "\<not> write_lost env0 OA_debit" "\<not> write_lost env0 OA_assign" "\<not> write_lost env0 OA_taken"
    by (simp_all add: ex_defs)
  have pos: "(0::int) < 3" by simp
  note r = claim_writes_are_separate[OF h1 h2 h3 h4 h5 h6 pos]
  have r1: "fst (offer_actions env0 rl0 db_new ''102'' ''take'' 1 2) = Claimed"
    using r h7 by blast
  have r2: "masters (snd (snd (offer_actions env0 rl0 db_new ''102'' ''take'' 1 2)))
      = masters (debit_free_order 2 db_new)"
    using r nf(1) by simp
  have r3: "requests (snd (snd (offer_actions env0 rl0 db_new ''102'' ''take'' 1 2)))
      = requests (assign_request 2 1 db_new)"
    using r nf(2) by simp
  have r4: "offers (snd (snd (offer_actions env0 rl0 db_new ''102'' ''take'' 1 2)))
      = offers (set_offer_status ''taken'' 1 2 db_new)"
    using r r1 nf(3) by simp
  show ?thesis unfolding r2 r3 r4 m q o using h1 h2 h3 h4 r1
    by (simp add: ex_master_def ex_request_def ex_offer_def)
qed

text \<open>
  The claim as stated fails when the store refuses the status write: master 2 is debited
  (3 to 2), the request stays \<open>new\<close>, and the handler reports success.
\<close>

theorem lost_status_write_counterexample:
  "fst (offer_actions env_assign_fails rl0 db_new ''102'' ''take'' 1 2) = Claimed
   \<and> map m_free_orders_left
        (masters (snd (snd (offer_actions env_assign_fails rl0 db_new ''102'' ''take'' 1 2))))
       = [Some 3, Some 2, Some 0]
   \<and> map r_status
        (requests (snd (snd (offer_actions env_assign_fails rl0 db_new ''102'' ''take'' 1 2))))
       = [''new'']"
  by (simp add: env_assign_fails_def ex_defs oa_defs)
section \<open>Reaching completed\<close>

text \<open>
  C4. The claim is that a request becomes \<open>completed\<close> only from \<open>pending_confirmation\<close>.
  The code does not keep to it: the sweep selects pending requests only, but
  client_confirmation refuses only a request that is already \<open>completed\<close>; a "yes" for
  request 1 while it is \<open>assigned\<close> (for instance after a dispute has moved it back) goes to
  mark_request_completed and the request becomes \<open>completed\<close> without passing through
  \<open>pending_confirmation\<close>.
\<close>

theorem confirm_completes_assigned_request:
  "map r_status (requests db_assigned) = [''assigned'']
   \<and> fst (client_confirmation env0 db_assigned 1 ''yes'') = Confirm_thanks
   \<and> map r_status (requests (snd (client_confirmation env0 db_assigned 1 ''yes''))) = [''completed'']"
  by (simp add: client_confirmation_def mc_defs ex_defs)
section \<open>Skill tier on completion\<close>

text \<open>
  C7. The claim is that each completion increments orders_completed and stores the tier of
  the incremented count. The counter is incremented, but the stored tier lags by one
  completion: completing the order of a master with 19 completed orders stores the counter 20
  together with the tier of 19: the tier is computed from the counter before the UPDATE that
  increments it. Read again afterwards, calc_skill_tier gives the tier of 20.
\<close>

theorem tier_lags_behind_counter:
  "map m_orders_completed (masters (snd (mark_request_completed env0 db_19 1))) = [Some 20]
   \<and> map m_skill_tier (masters (snd (mark_request_completed env0 db_19 1))) = [tier_novice]
   \<and> calc_skill_tier env0 (snd (mark_request_completed env0 db_19 1)) (Some 2) = tier_master
   \<and> tier_novice \<noteq> tier_master"
  by (simp add: mc_defs ex_defs db_19_def tier_master_def)
section \<open>Master statistics\<close>

lemma ums_reviews [simp]: "reviews (update_master_stats e d mid) = reviews d"
  by (simp add: update_master_stats_def execute_def set_master_stats_def Let_def)

lemma ums_requests [simp]: "requests (update_master_stats e d mid) = requests d"
  by (simp add: update_master_stats_def execute_def set_master_stats_def Let_def)

lemma ums_ids [simp]: "map m_id (masters (update_master_stats e d mid)) = map m_id (masters d)"
  by (simp add: update_master_stats_def execute_def set_master_stats_def Let_def comp_def)

lemma ums_ratings [simp]:
  "master_ratings (update_master_stats e d mid) k = master_ratings d k"
  by (simp add: master_ratings_def)

text \<open>
  C10. When no review row names the master, update_master_stats returns the database as it
  was, so avg_rating and reviews_count keep their values; for a master just inserted these
  are the column defaults 5.0 and 0.
\<close>

theorem update_master_stats_without_reviews:
  assumes "filter (\<lambda>v. rv_master_id v = mid) (reviews d) = []"
  shows "update_master_stats e d (Some mid) = d
    \<and> m_avg_rating (last (masters (insert_master contact level cats tier d0))) = 5
    \<and> m_reviews_count (last (masters (insert_master contact level cats tier d0))) = 0"
  using assms by (simp add: update_master_stats_def master_ratings_def insert_master_def)

theorem update_master_stats_without_reviews_witness:
  "filter (\<lambda>v. rv_master_id v = 2) (reviews db_rated) = []
   \<and> update_master_stats env0 db_rated (Some 2) = db_rated
   \<and> map m_avg_rating (masters (update_master_stats env0 db_rated (Some 2))) = [5, 5, 5]"
proof -
  have h: "filter (\<lambda>v. rv_master_id v = 2) (reviews db_rated) = []"
    by (simp add: db_rated_def)
  have m: "map m_avg_rating (masters db_rated) = [5, 5, 5]"
    by (simp add: db_rated_def ex_masters_def ex_master_def)
  from update_master_stats_without_reviews[OF h, of env0] h m show ?thesis by simp
qed
section \<open>Rating submissions\<close>

lemma process_rating_reviews:
  assumes "fetch_one e PR_select_request (filter (\<lambda>r. r_id r = request_id) (requests d)) = Some request"
    and "r_master_id request = Some mid" and "1 \<le> rating" and "rating \<le> 5"
    and "\<not> db_fails e PR_insert"
  shows "reviews (snd (process_rating e d uid request_id rating))
     = reviews d @ [\<lparr>rv_id = seq_reviews d + 1, rv_request_id = request_id, rv_master_id = mid,
                     rv_client_id = ustr_of uid, rv_rating = rating, rv_comment = None\<rparr>]"
  using assms
  by (simp add: process_rating_def rated_def Let_def execute_def insert_review_def db_fails_def
        write_lost_def)

lemma request_review_existing:
  assumes "filter (\<lambda>v. rv_request_id v = request_id) (reviews d) \<noteq> []"
    and "\<not> db_fails e RR_select_review"
  shows "request_review e d request_id = (False, d)"
  using assms
  by (auto simp: request_review_def request_review_after_flag_def fetch_one_def
           split: option.splits list.splits)

text \<open>
  C9 (as amended). A rating submission for an existing request with an assigned master and
  a rating from 1 to 5 appends a Review row, whether or not the request already has one;
  the reviews table has no uniqueness constraint and process_rating does not look for an
  earlier row. What an existing Review row prevents is a new rating prompt: request_review
  returns without prompting and without writing.
\<close>

theorem rating_is_not_idempotent:
  assumes "fetch_one e PR_select_request (filter (\<lambda>r. r_id r = request_id) (requests d)) = Some request"
    and "r_master_id request = Some mid" and "1 \<le> rating" and "rating \<le> 5"
    and "\<not> db_fails e PR_insert"
  shows "reviews (snd (process_rating e d uid request_id rating))
     = reviews d @ [\<lparr>rv_id = seq_reviews d + 1, rv_request_id = request_id, rv_master_id = mid,
                     rv_client_id = ustr_of uid, rv_rating = rating, rv_comment = None\<rparr>]
    \<and> (filter (\<lambda>v. rv_request_id v = request_id) (reviews d) \<noteq> [] \<and> \<not> db_fails e' RR_select_review
        \<longrightarrow> request_review e' d request_id = (False, d))"
  using process_rating_reviews[OF assms] request_review_existing by blast

theorem rating_is_not_idempotent_witness:
  "fetch_one env0 PR_select_request (filter (\<lambda>r. r_id r = 1) (requests db_rated))
     = Some (ex_request ''completed'' (Some 1))
   \<and> map rv_rating (reviews (snd (process_rating env0 db_rated ''900'' 1 4))) = [5, 4]
   \<and> filter (\<lambda>v. rv_request_id v = 1) (reviews db_rated) \<noteq> []
   \<and> request_review env0 db_rated 1 = (False, db_rated)"
proof -
  have h1: "fetch_one env0 PR_select_request (filter (\<lambda>r. r_id r = 1) (requests db_rated))
     = Some (ex_request ''completed'' (Some 1))"
    by (simp add: fetch_one_def db_rated_def ex_request_def env0_def db_fails_def)
  have h2: "r_master_id (ex_request ''completed'' (Some 1)) = Some 1" by (simp add: ex_request_def)
  have h3: "\<not> db_fails env0 PR_insert" "\<not> db_fails env0 RR_select_review"
    by (simp_all add: env0_def db_fails_def)
  have h4: "filter (\<lambda>v. rv_request_id v = 1) (reviews db_rated) \<noteq> []" by (simp add: db_rated_def)
  have h5: "map rv_rating (reviews db_rated) = [5]" by (simp add: db_rated_def)
  have r14: "(1::int) \<le> 4" "(4::int) \<le> 5" by simp_all
  from rating_is_not_idempotent[OF h1 h2 r14 h3(1), of "''900''" env0] h1 h3 h4 h5
  show ?thesis by simp
qed

text \<open>
  The claim as stated fails: request 1 already has a review, and a second submission leaves
  two rows for it.
\<close>

theorem second_rating_counterexample:
  "map rv_request_id (reviews db_rated) = [1]
   \<and> map rv_request_id (reviews (snd (process_rating env0 db_rated ''900'' 1 4))) = [1, 1]"
  by (simp add: pr_defs ex_defs ex2_defs Let_def)
section \<open>Statistics after rating submissions\<close>

lemma master_ratings_of: "master_ratings d (Some mid) = ratings_of d mid"
  by (simp add: master_ratings_def ratings_of_def)

lemma ratings_of_ums [simp]: "ratings_of (update_master_stats e d mid) k = ratings_of d k"
  by (simp add: ratings_of_def)

lemma ratings_ok_ums [simp]: "ratings_ok (update_master_stats e d mid) = ratings_ok d"
  by (simp add: ratings_ok_def)

lemma ratings_ok_prefix:
  assumes "prefix (reviews d) (reviews d')" and "ratings_ok d'"
  shows "ratings_ok d"
proof -
  from assms(1) obtain zs where z: "reviews d' = reviews d @ zs" by (auto simp: prefix_def)
  with assms(2) show ?thesis by (simp add: ratings_ok_def)
qed

lemma ratings_of_prefix:
  assumes "prefix (reviews d) (reviews d')"
  shows "length (ratings_of d mid) \<le> length (ratings_of d' mid)"
proof -
  from assms obtain zs where z: "reviews d' = reviews d @ zs" by (auto simp: prefix_def)
  then show ?thesis by (simp add: ratings_of_def)
qed

lemma ratings_ok_average:
  assumes "ratings_ok d" and "ratings_of d mid \<noteq> []"
  shows "rounded_to_1_decimal (py_round1 (sql_avg (ratings_of d mid))) (mean (ratings_of d mid))"
proof (rule stored_average_rounded[OF assms(2)])
  show "list_all (\<lambda>r. 1 \<le> r \<and> r \<le> 5) (ratings_of d mid)"
    using assms(1) by (auto simp: ratings_ok_def ratings_of_def list_all_iff)
  have "length (ratings_of d mid) \<le> length (reviews d)" by (simp add: ratings_of_def)
  with assms(1) show "length (ratings_of d mid) < 2 ^ 46" by (simp add: ratings_ok_def)
qed

lemma stats_recomputed_established:
  assumes "stats_stored e" and "ratings_ok d" and "ratings_of d mid \<noteq> []"
  shows "stats_recomputed (update_master_stats e d (Some mid)) mid"
proof -
  have u: "update_master_stats e d (Some mid)
      = set_master_stats (py_round1 (sql_avg (ratings_of d mid)))
          (int (length (ratings_of d mid))) (Some mid) d"
    using assms(1,3)
    by (simp add: update_master_stats_def Let_def execute_def stats_stored_def master_ratings_of)
  have r: "\<And>a c. ratings_of (set_master_stats a c (Some mid) d) mid = ratings_of d mid"
    by (simp add: ratings_of_def set_master_stats_def)
  show ?thesis unfolding u stats_recomputed_def r
    unfolding set_master_stats_def using ratings_ok_average[OF assms(2,3)]
    by (simp add: list.pred_map comp_def) (simp add: list_all_iff)
qed

lemma stats_recomputed_ums_other:
  assumes "stats_recomputed d k" and "mid \<noteq> Some k"
  shows "stats_recomputed (update_master_stats e d mid) k"
  using assms
  by (auto simp: stats_recomputed_def update_master_stats_def Let_def execute_def
        set_master_stats_def ratings_of_def list_all_iff)

lemma stats_recomputed_ums_empty:
  assumes "stats_recomputed d k" and "ratings_of d k = []"
  shows "stats_recomputed (update_master_stats e d mid) k"
  using assms
  by (auto simp: stats_recomputed_def update_master_stats_def Let_def execute_def
        set_master_stats_def ratings_of_def master_ratings_def list_all_iff)

lemma stats_recomputed_ums:
  assumes "stats_stored e" and "ratings_ok d" and "stats_recomputed d k"
  shows "stats_recomputed (update_master_stats e d mid) k"
proof (cases "mid = Some k")
  case False with assms(3) show ?thesis by (rule stats_recomputed_ums_other)
next
  case True
  show ?thesis
  proof (cases "ratings_of d k = []")
    case True with assms(3) show ?thesis by (rule stats_recomputed_ums_empty)
  next
    case False
    with stats_recomputed_established[OF assms(1,2)] \<open>mid = Some k\<close> show ?thesis by simp
  qed
qed

lemma stats_recomputed_insert_other:
  assumes "stats_recomputed d k" and "mid \<noteq> k"
  shows "stats_recomputed (insert_review request_id mid c rating d) k"
  using assms by (auto simp: stats_recomputed_def insert_review_def ratings_of_def list_all_iff)

lemma process_rating_prefix:
  "prefix (reviews d) (reviews (snd (process_rating e d uid request_id rating)))"
  by (auto simp: process_rating_def rated_def Let_def execute_def insert_review_def
           split: option.splits)

lemma rate_all_prefix: "prefix (reviews d) (reviews (rate_all e d subs))"
proof (induction subs arbitrary: d)
  case Nil show ?case by simp
next
  case (Cons s subs)
  obtain u r g where s: "s = (u, r, g)" by (cases s)
  from prefix_order.order_trans[OF process_rating_prefix Cons.IH] show ?case by (simp add: s)
qed

lemma process_rating_keeps:
  assumes "stats_stored e" and "ratings_ok (snd (process_rating e d uid request_id rating))"
    and "stats_recomputed d k"
  shows "stats_recomputed (snd (process_rating e d uid request_id rating)) k"
proof (cases "fetch_one e PR_select_request (filter (\<lambda>r. r_id r = request_id) (requests d))")
  case None then show ?thesis using assms(3) by (simp add: process_rating_def)
next
  case (Some request)
  from assms(1) have nc: "\<not> commit_raises e PR_insert" by (simp add: stats_stored_def)
  let ?d1 = "rated e d uid request_id rating (r_master_id request)"
  note eq = process_rating_found[OF Some nc, of uid rating]
  from assms(2) have ok1: "ratings_ok ?d1" unfolding eq by simp
  show ?thesis
  proof (cases "r_master_id request = Some k")
    case False
    have "stats_recomputed ?d1 k"
      using rated_cases[of e d uid request_id rating "r_master_id request"] False assms(3)
      by (auto simp: stats_recomputed_insert_other)
    from stats_recomputed_ums_other[OF this False] show ?thesis unfolding eq .
  next
    case True
    show ?thesis
    proof (cases "?d1 = d")
      case True
      with stats_recomputed_ums[OF assms(1) ok1] assms(3) show ?thesis unfolding eq by simp
    next
      case False
      with rated_cases[of e d uid request_id rating "r_master_id request"] True
      have "?d1 = insert_review request_id k (ustr_of uid) rating d" by auto
      then have "ratings_of ?d1 k \<noteq> []" by (simp add: insert_review_def ratings_of_def)
      from stats_recomputed_established[OF assms(1) ok1 this] True show ?thesis unfolding eq by simp
    qed
  qed
qed

lemma process_rating_establishes:
  assumes "stats_stored e" and "ratings_ok (snd (process_rating e d uid request_id rating))"
    and "length (ratings_of d mid)
           < length (ratings_of (snd (process_rating e d uid request_id rating)) mid)"
  shows "stats_recomputed (snd (process_rating e d uid request_id rating)) mid"
proof (cases "fetch_one e PR_select_request (filter (\<lambda>r. r_id r = request_id) (requests d))")
  case None then show ?thesis using assms(3) by (simp add: process_rating_def)
next
  case (Some request)
  from assms(1) have nc: "\<not> commit_raises e PR_insert" by (simp add: stats_stored_def)
  let ?d1 = "rated e d uid request_id rating (r_master_id request)"
  note eq = process_rating_found[OF Some nc, of uid rating]
  from assms(2) have ok1: "ratings_ok ?d1" unfolding eq by simp
  from assms(3) have more: "length (ratings_of d mid) < length (ratings_of ?d1 mid)"
    unfolding eq by simp
  with rated_cases[of e d uid request_id rating "r_master_id request"]
  obtain m where m: "r_master_id request = Some m"
      "?d1 = insert_review request_id m (ustr_of uid) rating d"
    by auto
  from more m(2) have "m = mid"
    by (auto simp: insert_review_def ratings_of_def split: if_splits)
  from more have "ratings_of ?d1 mid \<noteq> []" by auto
  from stats_recomputed_established[OF assms(1) ok1 this] m(1) \<open>m = mid\<close>
  show ?thesis unfolding eq by simp
qed

lemma rate_all_recomputed:
  assumes "stats_stored e"
  shows "ratings_ok (rate_all e d subs)
     \<Longrightarrow> length (ratings_of d mid) < length (ratings_of (rate_all e d subs) mid)
           \<or> stats_recomputed d mid
     \<Longrightarrow> stats_recomputed (rate_all e d subs) mid"
proof (induction subs arbitrary: d)
  case Nil then show ?case by simp
next
  case (Cons s subs)
  obtain u r g where s: "s = (u, r, g)" by (cases s)
  let ?d1 = "snd (process_rating e d u r g)"
  have fin: "rate_all e d (s # subs) = rate_all e ?d1 subs" by (simp add: s)
  from Cons.prems(1) have okf: "ratings_ok (rate_all e ?d1 subs)" by (simp add: fin)
  from ratings_ok_prefix[OF rate_all_prefix okf] have ok1: "ratings_ok ?d1" .
  have mono: "length (ratings_of d mid) \<le> length (ratings_of ?d1 mid)"
    by (rule ratings_of_prefix[OF process_rating_prefix])
  have "length (ratings_of ?d1 mid) < length (ratings_of (rate_all e ?d1 subs) mid)
        \<or> stats_recomputed ?d1 mid"
  proof (cases "stats_recomputed d mid")
    case True
    from process_rating_keeps[OF assms ok1 True] show ?thesis by simp
  next
    case False
    with Cons.prems(2) have lt: "length (ratings_of d mid) < length (ratings_of (rate_all e ?d1 subs) mid)"
      by (simp add: fin)
    show ?thesis
    proof (cases "length (ratings_of d mid) < length (ratings_of ?d1 mid)")
      case True
      from process_rating_establishes[OF assms ok1 True] show ?thesis by simp
    next
      case False
      with mono have "length (ratings_of ?d1 mid) = length (ratings_of d mid)" by simp
      with lt show ?thesis by simp
    qed
  qed
  from Cons.IH[OF okf this] show ?case by (simp add: fin)
qed

text \<open>
  C8. Take any database and any sequence of rating submissions, each handled with its
  statistics stored (the aggregate query answers, the UPDATE is not refused, the commit
  before them does not raise). If the sequence has inserted a review row for master \<open>mid\<close>,
  then at the end every row of master \<open>mid\<close> has, as reviews_count, the number of review
  rows of that master and, as avg_rating, the arithmetic mean of their ratings rounded to
  one decimal: a multiple of one tenth that is at most half a tenth away from the mean.
  The ratings in the table are from 1 to 5, as its CHECK constraint has it, and there are
  fewer than \<open>2 ^ 46\<close> rows, so that the sum and the number of ratings are exact as doubles.
\<close>

theorem stats_after_ratings:
  assumes "stats_stored e" and "ratings_ok (rate_all e d subs)"
    and "length (ratings_of d mid) < length (ratings_of (rate_all e d subs) mid)"
  shows "list_all (\<lambda>m. m_id m = mid \<longrightarrow>
            m_reviews_count m
              = int (length (filter (\<lambda>v. rv_master_id v = mid) (reviews (rate_all e d subs))))
            \<and> rounded_to_1_decimal (m_avg_rating m)
                (mean (map rv_rating
                   (filter (\<lambda>v. rv_master_id v = mid) (reviews (rate_all e d subs))))))
           (masters (rate_all e d subs))"
  using rate_all_recomputed[OF assms(1,2), of mid] assms(3)
  by (simp add: stats_recomputed_def ratings_of_def)

theorem stats_after_ratings_witness:
  "stats_stored env0 \<and> ratings_ok (rate_all env0 db_three_ratings [(''900'', 1, 4)])
   \<and> ratings_of db_three_ratings 1 = [5, 4, 4]
   \<and> ratings_of (rate_all env0 db_three_ratings [(''900'', 1, 4)]) 1 = [5, 4, 4, 4]
   \<and> mean [5, 4, 4, 4] = 425 / 100
   \<and> map m_avg_rating (masters (rate_all env0 db_three_ratings [(''900'', 1, 4)])) = [42 / 10]
   \<and> map m_reviews_count (masters (rate_all env0 db_three_ratings [(''900'', 1, 4)])) = [4]
   \<and> list_all (\<lambda>m. m_id m = 1 \<longrightarrow>
            m_reviews_count m
              = int (length (filter (\<lambda>v. rv_master_id v = 1)
                       (reviews (rate_all env0 db_three_ratings [(''900'', 1, 4)]))))
            \<and> rounded_to_1_decimal (m_avg_rating m)
                (mean (map rv_rating
                   (filter (\<lambda>v. rv_master_id v = 1)
                      (reviews (rate_all env0 db_three_ratings [(''900'', 1, 4)]))))))
           (masters (rate_all env0 db_three_ratings [(''900'', 1, 4)]))"
proof -
  have h0: "stats_stored env0" by (simp add: stats_stored_def ex_defs)
  have r: "reviews (rate_all env0 db_three_ratings [(''900'', 1, 4)])
      = [ex_review 1 5, ex_review 2 4, ex_review 3 4, ex_review 4 4]"
    by (simp add: process_rating_def rated_def insert_review_def fetch_one_def execute_def Let_def
          db_three_ratings_def ex_review_def ex_defs)
  have h1: "ratings_ok (rate_all env0 db_three_ratings [(''900'', 1, 4)])"
    unfolding ratings_ok_def r by (simp add: ex_review_def)
  have v: "ratings_of db_three_ratings 1 = [5, 4, 4]"
    "ratings_of (rate_all env0 db_three_ratings [(''900'', 1, 4)]) 1 = [5, 4, 4, 4]"
    unfolding ratings_of_def r by (simp_all add: db_three_ratings_def ex_review_def)
  have h2: "length (ratings_of db_three_ratings 1)
      < length (ratings_of (rate_all env0 db_three_ratings [(''900'', 1, 4)]) 1)"
    unfolding v by simp
  have a: "py_round1 (sql_avg [5, 4, 4, 4]) = 42 / 10" "mean [5, 4, 4, 4] = 425 / 100"
    by (simp_all add: fl_defs mean_def)
  have m: "map m_avg_rating (masters (rate_all env0 db_three_ratings [(''900'', 1, 4)]))
      = [py_round1 (sql_avg [5, 4, 4, 4])]"
    "map m_reviews_count (masters (rate_all env0 db_three_ratings [(''900'', 1, 4)])) = [4]"
    by (simp_all add: pr_defs Let_def db_three_ratings_def ex_review_def ex_defs)
  from stats_after_ratings[OF h0 h1 h2] h0 h1 v a m show ?thesis by simp
qed
section \<open>The broadcaster\<close>

lemma contains_sublist: "contains a b = sublist a b"
  by (induction b) (simp_all add: sublist_Cons_right)

lemma dropWhile_none: "(\<And>x. x \<in> set xs \<Longrightarrow> \<not> P x) \<Longrightarrow> dropWhile P xs = xs"
  by (cases xs) simp_all

lemma strip_no_space:
  assumes "\<And>x. x \<in> set xs \<Longrightarrow> \<not> is_space x"
  shows "strip xs = xs"
proof -
  have "dropWhile is_space xs = xs" using assms by (rule dropWhile_none)
  moreover have "dropWhile is_space (rev xs) = rev xs"
    using assms by (intro dropWhile_none) simp
  ultimately show ?thesis by (simp add: strip_def)
qed

lemma cyrillic_not_space: "is_cyrillic c \<Longrightarrow> \<not> is_space c"
  by (auto simp: is_cyrillic_def is_space_def)

lemma clean_text_eq: "clean_text s = normalized s"
proof -
  have "strip (filter is_cyrillic s) = filter is_cyrillic s"
    by (rule strip_no_space) (simp add: cyrillic_not_space)
  then show ?thesis by (simp add: clean_text_def normalized_def)
qed

lemma filter_dropWhile: "(\<And>x. Q x \<Longrightarrow> \<not> P x) \<Longrightarrow> filter P (dropWhile Q xs) = filter P xs"
  by (induction xs) auto

lemma normalized_strip: "normalized (strip s) = normalized s"
proof -
  have a: "filter is_cyrillic (dropWhile is_space xs) = filter is_cyrillic xs" for xs
    by (rule filter_dropWhile) (auto dest: cyrillic_not_space)
  have "filter is_cyrillic (strip s) = rev (filter is_cyrillic (dropWhile is_space (rev (dropWhile is_space s))))"
    by (simp add: strip_def rev_filter)
  also have "\<dots> = filter is_cyrillic (dropWhile is_space s)" by (simp add: a rev_filter)
  also have "\<dots> = filter is_cyrillic s" by (rule a)
  finally show ?thesis by (simp add: normalized_def)
qed

lemma split_on_nonempty: "split_on sep xs \<noteq> []"
  by (induction xs) (auto split: list.splits)

lemma split_on_first:
  "(case split_on sep xs of w # ws \<Rightarrow> w | [] \<Rightarrow> []) = takeWhile (\<lambda>c. c \<noteq> sep) xs"
proof (induction xs)
  case Nil show ?case by simp
next
  case (Cons x xs)
  then show ?case using split_on_nonempty[of sep xs] by (auto split: list.splits)
qed

lemma master_cats_eq:
  "master_cats cats
     = filter (\<lambda>c. c \<noteq> []) (map (\<lambda>entry. normalized (main_category entry)) (split_on 44 cats))"
  by (simp add: master_cats_def split_on_first clean_text_eq normalized_strip main_category_def)

lemma list_ex_filter_map:
  "list_ex P (filter Q (map f xs)) = list_ex (\<lambda>x. Q (f x) \<and> P (f x)) xs"
  by (induction xs) auto

lemma cat_match_spec: "cat_match cats category = categories_match cats category"
proof (cases cats)
  case None then show ?thesis by (simp add: cat_match_def categories_match_def)
next
  case (Some entries)
  show ?thesis
  proof (cases "entries = []")
    case True
    with Some show ?thesis
      by (simp add: cat_match_def categories_match_def normalized_def main_category_def)
  next
    case False
    with Some show ?thesis
      by (simp add: cat_match_def categories_match_def Let_def master_cats_eq list_ex_filter_map
            contains_sublist clean_text_eq)
  qed
qed

lemma is_active_spec: "is_active e until = grant_active e until"
  by (auto simp: is_active_def grant_active_def split: option.splits)

lemma lvl_rank_spec: "lvl_rank level = level_rank level"
  by (simp add: lvl_rank_def level_rank_def)

lemma key_le_rank: "sort_key_row e a \<le> sort_key_row e b \<longleftrightarrow> rank e b \<le> rank e a"
  by (auto simp: sort_key_row_def rank_def Let_def is_active_spec lvl_rank_spec)

lemma ranked_descending:
  "sorted_wrt (\<lambda>a b. rank e b \<le> rank e a) (sort_key (sort_key_row e) xs)"
proof -
  have "sorted (map (sort_key_row e) (sort_key (sort_key_row e) xs))" by (rule sorted_sort_key)
  then show ?thesis by (simp add: sorted_map key_le_rank)
qed

lemma ranked_stable:
  "filter (\<lambda>m. rank e m = k) (sort_key (sort_key_row e) xs) = filter (\<lambda>m. rank e m = k) xs"
proof -
  obtain p s l where k: "k = (p, s, l)" by (cases k)
  have eq: "\<And>m. rank e m = k \<longleftrightarrow> sort_key_row e m = (- p, - s, - l)"
    by (auto simp: k sort_key_row_def rank_def Let_def is_active_spec lvl_rank_spec)
  show ?thesis unfolding eq by (rule sort_key_stable)
qed

lemma select_active_mset:
  "mset (select_active e d)
     = (if db_fails e SM_select then {#} else mset (filter (\<lambda>m. m_is_active m = 1) (masters d)))"
  by (simp add: select_active_def fetch_all_def)

lemma survivors_spec:
  "survivors e d category
     = filter (\<lambda>m. categories_match (m_categories_auto m) category) (select_active e d)"
  by (simp add: survivors_def cat_match_spec)

lemma survivors_have_categories:
  assumes "m \<in> set (survivors e d category)"
  shows "\<exists>cats. m_categories_auto m = Some cats \<and> cats \<noteq> []"
proof -
  from assms have "cat_match (m_categories_auto m) category" by (simp add: survivors_def)
  then show ?thesis by (auto simp: cat_match_def split: option.splits if_splits)
qed

lemma notify_master_offers [simp]: "offers (notify_master e d r) = offers d"
  by (simp add: notify_master_def execute_def deactivate_def split: delivery.splits)

lemma notify_master_seq [simp]: "seq_offers (notify_master e d r) = seq_offers d"
  by (simp add: notify_master_def execute_def deactivate_def split: delivery.splits)

text \<open>An offer row is stored for a master when the INSERT is not refused and the commit after it does not raise.\<close>

lemma offer_loop_offers:
  "\<exists>new. offers (snd (offer_loop e rid d ms)) = offers d @ new
     \<and> list_all (\<lambda>ofr. o_status ofr = ''sent'' \<and> o_request_id ofr = rid) new
     \<and> subseq (map o_master_id new) (map m_id ms)
     \<and> (list_all (\<lambda>m. \<not> write_lost e (SM_insert (m_id m)) \<and> \<not> commit_raises e (SM_insert (m_id m))) ms
        \<longrightarrow> map o_master_id new = map m_id ms)"
proof (induction ms arbitrary: d)
  case Nil
  show ?case by simp
next
  case (Cons m ms)
  let ?d1 = "execute e (SM_insert (m_id m)) (insert_offer rid (m_id m)) d"
  let ?first = "if write_lost e (SM_insert (m_id m)) then []
                else [\<lparr>o_id = seq_offers d + 1, o_request_id = rid, o_master_id = m_id m,
                       o_status = ''sent''\<rparr>]"
  have d1: "offers ?d1 = offers d @ ?first" by (simp add: execute_def insert_offer_def)
  have f: "list_all (\<lambda>ofr. o_status ofr = ''sent'' \<and> o_request_id ofr = rid) ?first"
    "subseq (map o_master_id ?first) [m_id m]"
    by simp_all
  show ?case
  proof (cases "commit_raises e (SM_insert (m_id m))")
    case True
    then have r: "snd (offer_loop e rid d (m # ms)) = ?d1" by (simp add: Let_def)
    have "subseq (map o_master_id ?first) (map m_id (m # ms))"
      using f(2) by (auto intro: subseq_Cons')
    with d1 f(1) True show ?thesis unfolding r by (intro exI[of _ ?first]) simp
  next
    case False
    then have r: "snd (offer_loop e rid d (m # ms)) = snd (offer_loop e rid (notify_master e ?d1 m) ms)"
      by (simp add: Let_def)
    from Cons.IH[of "notify_master e ?d1 m"] obtain new where
      n: "offers (snd (offer_loop e rid (notify_master e ?d1 m) ms)) = offers ?d1 @ new"
        "list_all (\<lambda>ofr. o_status ofr = ''sent'' \<and> o_request_id ofr = rid) new"
        "subseq (map o_master_id new) (map m_id ms)"
        "list_all (\<lambda>m. \<not> write_lost e (SM_insert (m_id m)) \<and> \<not> commit_raises e (SM_insert (m_id m))) ms
           \<longrightarrow> map o_master_id new = map m_id ms"
      by auto
    have a: "offers (snd (offer_loop e rid d (m # ms))) = offers d @ (?first @ new)"
      unfolding r n(1) d1 by simp
    have b: "list_all (\<lambda>ofr. o_status ofr = ''sent'' \<and> o_request_id ofr = rid) (?first @ new)"
      using f(1) n(2) by simp
    have c: "subseq (map o_master_id (?first @ new)) (map m_id (m # ms))"
      using n(3) by (auto intro: subseq_Cons')
    have e: "list_all (\<lambda>m. \<not> write_lost e (SM_insert (m_id m)) \<and> \<not> commit_raises e (SM_insert (m_id m))) (m # ms)
           \<longrightarrow> map o_master_id (?first @ new) = map m_id (m # ms)"
      using n(4) by simp
    from a b c e show ?thesis by blast
  qed
qed

text \<open>
  C6. The broadcaster fetches the rows of masters with is_active = 1 (all of them, in the
  order of the engine's scan; none when the SELECT fails) and keeps those whose categories
  match the category of the request: some comma-separated entry of the master's text, cut
  at its sub-category suffix and normalized, is not empty and contains the normalized
  request category or is contained in it. Normalizing keeps the letters, which for the code
  are U+0410 to U+044F, and lowers them, so that case, punctuation and every other
  character are ignored. A master without
  categories is never kept. The survivors are arranged by descending rank (active priority,
  active subscription, level rank), rows of equal rank staying in fetch order, and the
  first five are selected. The broadcast appends offer rows with status \<open>sent\<close> for
  selected masters only, in that order, each at most once: one for every selected master
  when no INSERT is refused and no commit after one raises.
\<close>

theorem broadcast_selects_ranks_and_limits:
  "mset (select_active e d)
     = (if db_fails e SM_select then {#} else mset (filter (\<lambda>m. m_is_active m = 1) (masters d)))
   \<and> survivors e d category
       = filter (\<lambda>m. categories_match (m_categories_auto m) category) (select_active e d)
   \<and> cat_match cats category = categories_match cats category
   \<and> clean_text s = normalized s
   \<and> is_cyrillic c = (1040 \<le> c \<and> c \<le> 1103)
   \<and> (\<forall>m \<in> set (survivors e d category). \<exists>cats. m_categories_auto m = Some cats \<and> cats \<noteq> [])
   \<and> is_active e until = grant_active e until
   \<and> lvl_rank level = level_rank level
   \<and> (\<exists>ranked. mset ranked = mset (survivors e d category)
         \<and> sorted_wrt (\<lambda>a b. rank e b \<le> rank e a) ranked
         \<and> (\<forall>k. filter (\<lambda>m. rank e m = k) ranked = filter (\<lambda>m. rank e m = k) (survivors e d category))
         \<and> select_masters e d category = take 5 ranked)
   \<and> length (select_masters e d category) \<le> 5
   \<and> (\<exists>new. offers (snd (send_to_masters e d request_id category)) = offers d @ new
         \<and> list_all (\<lambda>ofr. o_status ofr = ''sent'' \<and> o_request_id ofr = request_id) new
         \<and> subseq (map o_master_id new) (map m_id (select_masters e d category))
         \<and> (list_all (\<lambda>m. \<not> write_lost e (SM_insert (m_id m))
                           \<and> \<not> commit_raises e (SM_insert (m_id m)))
               (select_masters e d category)
            \<longrightarrow> map o_master_id new = map m_id (select_masters e d category)))"
proof -
  let ?ranked = "sort_key (sort_key_row e) (survivors e d category)"
  have r: "\<exists>ranked. mset ranked = mset (survivors e d category)
         \<and> sorted_wrt (\<lambda>a b. rank e b \<le> rank e a) ranked
         \<and> (\<forall>k. filter (\<lambda>m. rank e m = k) ranked = filter (\<lambda>m. rank e m = k) (survivors e d category))
         \<and> select_masters e d category = take 5 ranked"
    using ranked_descending[of e "survivors e d category"]
      ranked_stable[of e _ "survivors e d category"]
    by (intro exI[of _ ?ranked]) (simp add: select_masters_def)
  have l: "length (select_masters e d category) \<le> 5" by (simp add: select_masters_def)
  have h: "\<forall>m \<in> set (survivors e d category). \<exists>cats. m_categories_auto m = Some cats \<and> cats \<noteq> []"
    using survivors_have_categories by blast
  have y: "is_cyrillic c = (1040 \<le> c \<and> c \<le> 1103)" by (auto simp: is_cyrillic_def)
  note o = offer_loop_offers[of e request_id d "select_masters e d category"]
  show ?thesis
    unfolding send_to_masters_def
    using select_active_mset[of e d] survivors_spec[of e d category] cat_match_spec[of cats category]
      clean_text_eq[of s] y h is_active_spec[of e until] lvl_rank_spec[of level] r l o
    by (intro conjI)
qed

theorem broadcast_selects_ranks_and_limits_witness:
  "map m_id (select_active env0 db_broadcast) = [3, 8, 1, 6, 7, 9, 10, 4, 5]
   \<and> map m_id (survivors env0 db_broadcast cat_request_remont) = [8, 1, 6, 7, 9, 10, 5]
   \<and> map (rank env0) (survivors env0 db_broadcast cat_request_remont)
       = [(0, 0, 2), (0, 0, 0), (0, 1, 0), (1, 0, 0), (0, 0, 0), (0, 0, 0), (0, 0, 1)]
   \<and> map m_id (select_masters env0 db_broadcast cat_request_remont) = [7, 6, 8, 5, 1]
   \<and> normalized cat_request_remont = [1088, 1077, 1084, 1086, 1085, 1090]
   \<and> cat_match (Some cats_remont_sub_uborka) cat_request_remont
   \<and> cat_match (Some cats_remont_sub_uborka) cat_uborka
   \<and> \<not> cat_match (Some cat_uborka) cat_request_remont
   \<and> \<not> is_active env0 (Some ''2020-01-01 00:00:00'')
   \<and> is_active env0 (Some ''2030-01-01 00:00:00'')
   \<and> list_all (\<lambda>m. \<not> write_lost env0 (SM_insert (m_id m)) \<and> \<not> commit_raises env0 (SM_insert (m_id m)))
        (select_masters env0 db_broadcast cat_request_remont)
   \<and> map o_master_id (offers (snd (send_to_masters env0 db_broadcast (Some 1) cat_request_remont)))
       = [7, 6, 8, 5, 1]
   \<and> list_all (\<lambda>ofr. o_status ofr = ''sent'' \<and> o_request_id ofr = Some 1)
        (offers (snd (send_to_masters env0 db_broadcast (Some 1) cat_request_remont)))"
proof -
  note t = broadcast_selects_ranks_and_limits[of env0 db_broadcast cat_request_remont
      "Some cats_remont_sub_uborka" cat_request_remont 1056 "Some ''2020-01-01 00:00:00''"
      level_checked "Some 1"]
  have st: "list_all (\<lambda>m. \<not> write_lost env0 (SM_insert (m_id m)) \<and> \<not> commit_raises env0 (SM_insert (m_id m))) xs"
    for xs by (simp add: list_all_iff env0_def write_lost_def)
  have o: "offers db_broadcast = []" by (simp add: db_broadcast_def)
  from t obtain new where
    n: "offers (snd (send_to_masters env0 db_broadcast (Some 1) cat_request_remont))
          = offers db_broadcast @ new"
       "list_all (\<lambda>ofr. o_status ofr = ''sent'' \<and> o_request_id ofr = Some 1) new"
       "list_all (\<lambda>m. \<not> write_lost env0 (SM_insert (m_id m)) \<and> \<not> commit_raises env0 (SM_insert (m_id m)))
          (select_masters env0 db_broadcast cat_request_remont)
        \<longrightarrow> map o_master_id new = map m_id (select_masters env0 db_broadcast cat_request_remont)"
    by blast
  from n(3) st have n3: "map o_master_id new = map m_id (select_masters env0 db_broadcast cat_request_remont)"
    by blast
  have a: "map m_id (select_active env0 db_broadcast) = [3, 8, 1, 6, 7, 9, 10, 4, 5]"
    by (simp add: select_active_def fetch_all_def ex_defs cat_uborka_def cat_request_remont_def cats_remont_sub_uborka_def
          db_broadcast_def level_verified_def level_checked_def)
  have sa: "select_active env0 db_broadcast
      = [masters db_broadcast ! 2, masters db_broadcast ! 7, masters db_broadcast ! 0,
         masters db_broadcast ! 5, masters db_broadcast ! 6, masters db_broadcast ! 8,
         masters db_broadcast ! 9, masters db_broadcast ! 3, masters db_broadcast ! 4]"
    by (simp add: select_active_def fetch_all_def ex_defs cat_uborka_def cat_request_remont_def cats_remont_sub_uborka_def
          db_broadcast_def level_verified_def level_checked_def)
  have b: "map m_id (survivors env0 db_broadcast cat_request_remont) = [8, 1, 6, 7, 9, 10, 5]"
    "map (rank env0) (survivors env0 db_broadcast cat_request_remont)
       = [(0, 0, 2), (0, 0, 0), (0, 1, 0), (1, 0, 0), (0, 0, 0), (0, 0, 0), (0, 0, 1)]"
    unfolding survivors_def sa
    by (simp_all add: cat_match_def master_cats_def clean_text_def strip_def is_space_def
          is_cyrillic_def lower_char_def Let_def rank_def grant_active_def level_rank_def
          level_top_def level_verified_def level_checked_def ex_defs cat_uborka_def cat_request_remont_def cats_remont_sub_uborka_def
          db_broadcast_def)
  have c: "map m_id (select_masters env0 db_broadcast cat_request_remont) = [7, 6, 8, 5, 1]"
    unfolding select_masters_def survivors_def sa
    by (simp add: cat_match_def master_cats_def clean_text_def strip_def is_space_def
          is_cyrillic_def lower_char_def Let_def sort_key_row_def is_active_def lvl_rank_def
          level_top_def level_verified_def level_checked_def ex_defs cat_uborka_def cat_request_remont_def cats_remont_sub_uborka_def
          db_broadcast_def)
  have v: "normalized cat_request_remont = [1088, 1077, 1084, 1086, 1085, 1090]"
    "cat_match (Some cats_remont_sub_uborka) cat_request_remont"
    "cat_match (Some cats_remont_sub_uborka) cat_uborka"
    "\<not> cat_match (Some cat_uborka) cat_request_remont"
    "\<not> is_active env0 (Some ''2020-01-01 00:00:00'')"
    "is_active env0 (Some ''2030-01-01 00:00:00'')"
    by (simp_all add: normalized_def cat_match_def master_cats_def clean_text_def strip_def
          is_space_def is_cyrillic_def lower_char_def Let_def is_active_def ex_defs cat_uborka_def cat_request_remont_def cats_remont_sub_uborka_def
          db_broadcast_def)
  show ?thesis unfolding n(1) o using a b c v st n(2) n3 by simp
qed
section \<open>The free-order balance along a run\<close>

text \<open>
  Most handlers leave the ids and the balances of the master rows as they are; the view
  \<open>mview\<close> records exactly these, and \<open>masters_inv\<close> depends on nothing else.
\<close>

lemma map_if_upd:
  "(\<And>x. g (f x) = g x) \<Longrightarrow> map g (map (\<lambda>x. if P x then f x else x) xs) = map g xs"
  by (induction xs) auto

lemma masters_inv_mview:
  assumes "mview d' = mview d"
  shows "masters_inv d' = masters_inv d"
proof -
  from assms have m: "map (\<lambda>m. (m_id m, m_free_orders_left m)) (masters d')
          = map (\<lambda>m. (m_id m, m_free_orders_left m)) (masters d)"
    by (simp add: mview_def)
  have ids: "map m_id (masters d') = map m_id (masters d)"
    using arg_cong[OF m, of "map fst"] by (simp add: comp_def)
  have "list_all free_ok ms
      = list_all (\<lambda>(i, f). case f of None \<Rightarrow> True | Some n \<Rightarrow> 0 \<le> n)
          (map (\<lambda>m. (m_id m, m_free_orders_left m)) ms)" for ms
    by (simp add: list_all_iff free_ok_def)
  with m ids show ?thesis by (simp add: masters_inv_def)
qed

lemma mview_execute:
  "(\<And>d. mview (f d) = mview d) \<Longrightarrow> mview (execute e s f d) = mview d"
  by (simp add: execute_def)

lemma mview_ums [simp]: "mview (update_master_stats e d mid) = mview d"
  by (simp add: mview_def update_master_stats_def Let_def execute_def set_master_stats_def map_if_upd)

lemma mview_rr [simp]: "mview (snd (request_review e d rid)) = mview d"
  by (simp add: mview_def request_review_def request_review_after_flag_def execute_def
      set_review_requested_def split: option.splits)

lemma mview_mrc [simp]: "mview (snd (mark_request_completed e d rid)) = mview d"
proof -
  have a: "mview (set_completed n rid d0) = mview d0" for n d0
    by (simp add: mview_def set_completed_def)
  have b: "mview (bump_orders_completed t mid d0) = mview d0" for t mid d0
    by (simp add: mview_def bump_orders_completed_def map_if_upd)
  show ?thesis
    by (simp add: mark_request_completed_def Let_def mview_execute a b split: option.splits)
qed

lemma mview_batch [simp]: "mview (auto_complete_batch es i d pending) = mview d"
  by (induction pending arbitrary: i d) simp_all

lemma mview_sweep [simp]: "mview (periodic_cleanup e es d) = mview d"
  by (simp add: periodic_cleanup_def)

lemma mview_complete [simp]: "mview (snd (complete_order e d uid rid)) = mview d"
  by (simp add: complete_order_def execute_def set_status_def mview_def split: option.splits)

lemma mview_confirm [simp]: "mview (snd (client_confirmation e d rid answer)) = mview d"
proof -
  have a: "mview (set_status st rid d0) = mview d0" for st d0
    by (simp add: mview_def set_status_def)
  have b: "snd (case mark_request_completed e d rid of (True, d') \<Rightarrow> (Confirm_thanks, d')
                | (False, d') \<Rightarrow> (Confirm_failed, d')) = snd (mark_request_completed e d rid)"
    by (simp split: prod.splits bool.splits)
  show ?thesis
    by (simp add: client_confirmation_def mview_execute a b split: option.splits)
qed

lemma mview_rating [simp]: "mview (snd (process_rating e d uid rid rating)) = mview d"
proof -
  have a: "mview (insert_review rid mid c rating d0) = mview d0" for mid c d0
    by (simp add: mview_def insert_review_def)
  show ?thesis
    by (simp add: process_rating_def rated_def Let_def mview_execute a split: option.splits)
qed

lemma mview_comment [simp]: "mview (comp_text e d rid txt) = mview d"
  by (simp add: comp_text_def execute_def set_review_comment_def mview_def split: option.splits)

lemma mview_payment [simp]: "mview (payment_done e d uid payload) = mview d"
  by (simp add: payment_done_def execute_def mview_def map_if_upd)

lemma mview_npd [simp]: "mview (mf_npd_doc e d mid) = mview d"
  by (simp add: mf_npd_doc_def execute_def mview_def map_if_upd)

lemma mview_notify_master [simp]: "mview (notify_master e d m) = mview d"
  by (simp add: notify_master_def execute_def deactivate_def mview_def map_if_upd
      split: delivery.splits)

lemma mview_offer_loop [simp]: "mview (snd (offer_loop e rid d ms)) = mview d"
proof (induction ms arbitrary: d)
  case Nil show ?case by simp
next
  case (Cons m ms)
  have a: "mview (execute e s (insert_offer rid k) d0) = mview d0" for s k d0
    by (simp add: execute_def insert_offer_def mview_def)
  show ?case by (simp add: Let_def Cons.IH a)
qed

lemma mview_submit [simp]: "mview (req_submit e d uid contact category) = mview d"
proof -
  have "mview (insert_request contact category uid now d0) = mview d0" for now d0
    by (simp add: mview_def insert_request_def)
  then show ?thesis
    by (simp add: req_submit_def Let_def send_to_masters_def mview_execute)
qed




lemma masters_inv_register:
  "masters_inv d \<Longrightarrow> masters_inv (mf_verify_no e d uid cats)"
  "masters_inv d \<Longrightarrow> masters_inv (mf_face_photo e d uid cats)"
  by (simp_all add: mf_verify_no_def mf_face_photo_def unparsable_def Let_def)

lemma masters_inv_delete: "masters_inv d \<Longrightarrow> masters_inv (delete_profile e d uid)"
  by (auto simp: delete_profile_def Let_def execute_def masters_inv_def list_all_iff distinct_map_filter)



lemma masters_inv_debit:
  assumes inv: "masters_inv d"
    and row: "entitlement_row e d master_id = Some m"
    and pos: "(case m_free_orders_left m of None \<Rightarrow> 0 | Some n \<Rightarrow> n) > 0"
  shows "masters_inv (debit_free_order master_id d)"
proof -
  from row have m: "m \<in> set (masters d)" "m_id m = master_id"
    using fetch_one_filter_SomeD[of e OA_select_master "\<lambda>m. m_id m = master_id" "masters d" m]
    by (simp_all add: entitlement_row_def)
  from inv have dist: "distinct (map m_id (masters d))" by (simp add: masters_inv_def)
  have uniq: "m' = m" if "m' \<in> set (masters d)" "m_id m' = master_id" for m'
  proof -
    from dist have "inj_on m_id (set (masters d))" by (simp add: distinct_map)
    from inj_onD[OF this, of m' m] that m show ?thesis by simp
  qed
  have ids: "map m_id (masters (debit_free_order master_id d)) = map m_id (masters d)"
    by (simp add: debit_free_order_def map_if_upd)
  have ok: "free_ok (m'\<lparr>m_free_orders_left := map_option (\<lambda>n. n - 1) (m_free_orders_left m')\<rparr>)"
    if "m' \<in> set (masters d)" "m_id m' = master_id" for m'
  proof -
    from uniq[OF that] have "m' = m" .
    moreover from inv m(1) have "free_ok m" by (simp add: masters_inv_def list_all_iff)
    ultimately show ?thesis using pos by (auto simp: free_ok_def split: option.splits)
  qed
  from inv ok show ?thesis unfolding masters_inv_def ids
    by (auto simp: debit_free_order_def list_all_iff)
qed


lemma masters_inv_claim_accepted:
  "mview (snd (claim_accepted e d req_id master_id)) = mview d"
proof -
  have a: "mview (assign_request master_id req_id d0) = mview d0" for d0
    by (simp add: mview_def assign_request_def)
  have b: "mview (set_offer_status st req_id master_id d0) = mview d0" for st d0
    by (simp add: mview_def set_offer_status_def)
  show ?thesis
    by (simp add: claim_accepted_def Let_def mview_execute a b split: option.splits)
qed




lemma masters_inv_frame: "masters_inv d \<Longrightarrow> mview d' = mview d \<Longrightarrow> masters_inv d'"
  using masters_inv_mview by blast

lemma masters_inv_take:
  assumes "masters_inv d"
  shows "masters_inv (snd (offer_take e d uid status req_id master_id))"
proof (cases "entitlement_row e d master_id")
  case None
  then show ?thesis using assms
    by (simp add: offer_take_def entitlement_row_def split: option.splits)
next
  case (Some m)
  have c: "masters_inv (snd (claim_accepted e d0 req_id master_id))" if "masters_inv d0" for d0
    using that by (rule masters_inv_frame) (rule masters_inv_claim_accepted)
  have deb: "masters_inv (execute e OA_debit (debit_free_order master_id) d)"
    if "(case m_free_orders_left m of None \<Rightarrow> 0 | Some n \<Rightarrow> n) > 0"
    using masters_inv_debit[OF assms Some that] assms by (simp add: execute_def)
  show ?thesis
    using Some assms c[OF assms] c[OF deb]
    by (simp add: offer_take_def entitlement_row_def split: option.splits)
qed

lemma offer_actions_db:
  "snd (snd (offer_actions e rl d uid action req_id master_id))
     = (if \<not> rate_ok e rl uid then d
        else case request_status e d req_id of
               None \<Rightarrow> d
             | Some st \<Rightarrow>
                 if action = ''skip''
                 then execute e OA_skip (set_offer_status ''skipped'' req_id master_id) d
                 else if action = ''take'' then snd (offer_take e d uid st req_id master_id)
                 else d)"
  by (simp add: offer_actions_def rate_ok_def request_status_def case_prod_beta
           split: bool.splits option.splits)

lemma offer_actions_reply:
  "fst (offer_actions e rl d uid action req_id master_id)
     = (if \<not> rate_ok e rl uid then Too_many_actions
        else case request_status e d req_id of
               None \<Rightarrow> Order_not_found
             | Some st \<Rightarrow>
                 if action = ''skip'' then Skipped
                 else if action = ''take'' then fst (offer_take e d uid st req_id master_id)
                 else No_reply)"
  by (simp add: offer_actions_def rate_ok_def request_status_def case_prod_beta
           split: bool.splits option.splits)

lemma offer_actions_limiter:
  "fst (snd (offer_actions e rl d uid action req_id master_id))
     = snd (check_limit rl (local_now e) uid ''offer_actions'' 10 3600)"
  by (simp add: offer_actions_def case_prod_beta split: bool.splits option.splits)

lemma masters_inv_offer_actions:
  assumes "masters_inv d"
  shows "masters_inv (snd (snd (offer_actions e rl d uid action req_id master_id)))"
proof -
  have b: "masters_inv (execute e OA_skip (set_offer_status st req_id master_id) d)" for st
    using assms by (rule masters_inv_frame) (simp add: mview_def set_offer_status_def execute_def)
  have t: "masters_inv (snd (offer_take e d uid st req_id master_id))" for st
    by (rule masters_inv_take[OF assms])
  show ?thesis
    using assms b t by (simp add: offer_actions_db split: option.splits)
qed

lemma masters_inv_handle:
  assumes "masters_inv (snd w)"
  shows "masters_inv (snd (handle e ev w))"
proof -
  obtain rl d where w: "w = (rl, d)" by (cases w)
  with assms have inv: "masters_inv d" by simp
  note fr = masters_inv_frame[OF inv]
  show ?thesis
  proof (cases ev)
    case (Offer_action uid action req_id master_id)
    with masters_inv_offer_actions[OF inv, of e rl uid action req_id master_id] show ?thesis
      by (simp add: w)
  next
    case (Register_candidate uid cats)
    with masters_inv_register(1)[OF inv] show ?thesis by (simp add: w)
  next
    case (Register_checked uid cats)
    with masters_inv_register(2)[OF inv] show ?thesis by (simp add: w)
  next
    case (Delete_profile uid)
    with masters_inv_delete[OF inv] show ?thesis by (simp add: w)
  next
    case (Submit_request uid contact category)
    then show ?thesis by (simp add: w fr)
  next
    case (Upgrade_verified mid)
    then show ?thesis by (simp add: w fr)
  next
    case (Payment uid payload)
    then show ?thesis by (simp add: w fr)
  next
    case (Complete_order uid rid)
    then show ?thesis by (simp add: w fr)
  next
    case (Confirm rid answer)
    then show ?thesis by (simp add: w fr)
  next
    case (Rate uid rid rating)
    then show ?thesis by (simp add: w fr)
  next
    case (Comment rid body)
    then show ?thesis by (simp add: w fr)
  next
    case (Sweep es)
    then show ?thesis by (simp add: w fr)
  qed
qed
lemma masters_inv_run: "masters_inv (snd w) \<Longrightarrow> masters_inv (snd (run evs w))"
proof (induction evs arbitrary: w)
  case Nil then show ?case by simp
next
  case (Cons a evs)
  obtain e ev where a: "a = (e, ev)" by (cases a)
  from Cons.IH[OF masters_inv_handle[OF Cons.prems, of e ev]] show ?case by (simp add: a)
qed


lemma free_ok_run:
  "masters_inv d \<Longrightarrow> list_all free_ok (masters (snd (run evs (rl, d))))"
  using masters_inv_run[of "(rl, d)" evs] by (simp add: masters_inv_def)
section \<open>The entitlement ledger in a claim\<close>

lemma claim_accepted_masters: "masters (snd (claim_accepted e d req_id master_id)) = masters d"
  by (simp add: claim_accepted_def Let_def execute_def assign_request_def set_offer_status_def
           split: option.splits)

lemma offer_take_debits:
  assumes "fst (offer_take e d uid st req_id master_id) = Claimed"
    and "entitlement_row e d master_id = Some m" and "\<not> is_active e (m_sub_until m)"
    and "\<not> write_lost e OA_debit"
  shows "masters (snd (offer_take e d uid st req_id master_id)) = masters (debit_free_order master_id d)"
    and "\<exists>n. m_free_orders_left m = Some n \<and> 0 < n"
  using assms
  by (auto simp: offer_take_def entitlement_row_def claim_accepted_masters execute_def
           split: option.splits if_splits)

lemma offer_take_exhausted:
  assumes "entitlement_row e d master_id = Some m" and "\<not> is_active e (m_sub_until m)"
    and "m_free_orders_left m = Some 0"
  shows "snd (offer_take e d uid st req_id master_id) = d"
    and "fst (offer_take e d uid st req_id master_id) \<in> {Auth_error, Already_taken, Upsell}"
    and "owns e d uid master_id \<Longrightarrow> st = ''new''
         \<Longrightarrow> fst (offer_take e d uid st req_id master_id) = Upsell"
  using assms
  by (auto simp: offer_take_def entitlement_row_def owns_def split: option.splits)

text \<open>
  C2. In every state reached by handler runs, whatever fails in them, from a database in
  which id is the key of masters and no free_orders_left is negative (the empty database
  is one), no free_orders_left is negative. A claim that succeeds for a master without an
  active subscription, the store not refusing the debit, lowers free_orders_left by exactly
  1 on the row of that master and leaves the other master rows as they are. A take by a
  master without an active subscription and with free_orders_left = 0 changes no table and
  is rejected; when it is a claim in the sense of section 4.2, one that reaches the
  entitlement check because the limiter admits the caller, the caller owns the master
  record and the request is still \<open>new\<close>, the rejection is the upsell prompt.
\<close>

theorem free_orders_ledger:
  "(masters_inv start \<longrightarrow> list_all free_ok (masters (snd (run evs (limiter, start)))))
   \<and> (fst (offer_actions e rl d uid ''take'' req_id master_id) = Claimed
       \<and> entitlement_row e d master_id = Some m \<and> \<not> is_active e (m_sub_until m)
       \<and> \<not> write_lost e OA_debit
      \<longrightarrow> (\<exists>n. m_free_orders_left m = Some n \<and> 0 < n)
          \<and> masters (snd (snd (offer_actions e rl d uid ''take'' req_id master_id)))
              = map (\<lambda>r. if m_id r = master_id
                          then r\<lparr>m_free_orders_left := map_option (\<lambda>n. n - 1) (m_free_orders_left r)\<rparr>
                          else r) (masters d))
   \<and> (entitlement_row e' d' master_id' = Some m' \<and> \<not> is_active e' (m_sub_until m')
       \<and> m_free_orders_left m' = Some 0
      \<longrightarrow> snd (snd (offer_actions e' rl' d' uid' ''take'' req_id' master_id')) = d'
          \<and> fst (offer_actions e' rl' d' uid' ''take'' req_id' master_id')
              \<in> {Too_many_actions, Order_not_found, Auth_error, Already_taken, Upsell}
          \<and> (rate_ok e' rl' uid' \<and> request_status e' d' req_id' = Some ''new''
              \<and> owns e' d' uid' master_id'
             \<longrightarrow> fst (offer_actions e' rl' d' uid' ''take'' req_id' master_id') = Upsell))"
proof (intro conjI impI)
  show "list_all free_ok (masters (snd (run evs (limiter, start))))" if "masters_inv start"
    using that by (rule free_ok_run)
next
  assume a: "fst (offer_actions e rl d uid ''take'' req_id master_id) = Claimed
       \<and> entitlement_row e d master_id = Some m \<and> \<not> is_active e (m_sub_until m)
       \<and> \<not> write_lost e OA_debit"
  then obtain st where st: "rate_ok e rl uid" "request_status e d req_id = Some st"
      "fst (offer_take e d uid st req_id master_id) = Claimed"
    by (auto simp: offer_actions_reply split: if_splits option.splits)
  from a offer_take_debits[OF st(3), of m]
  have r: "masters (snd (offer_take e d uid st req_id master_id)) = masters (debit_free_order master_id d)"
    "\<exists>n. m_free_orders_left m = Some n \<and> 0 < n" by simp_all
  show "\<exists>n. m_free_orders_left m = Some n \<and> 0 < n" by (rule r(2))
  show "masters (snd (snd (offer_actions e rl d uid ''take'' req_id master_id)))
              = map (\<lambda>r. if m_id r = master_id
                          then r\<lparr>m_free_orders_left := map_option (\<lambda>n. n - 1) (m_free_orders_left r)\<rparr>
                          else r) (masters d)"
    using st r(1) by (simp add: offer_actions_db debit_free_order_def)
next
  assume a: "entitlement_row e' d' master_id' = Some m' \<and> \<not> is_active e' (m_sub_until m')
       \<and> m_free_orders_left m' = Some 0"
  then have h: "entitlement_row e' d' master_id' = Some m'" "\<not> is_active e' (m_sub_until m')"
    "m_free_orders_left m' = Some 0" by simp_all
  note x = offer_take_exhausted[OF h]
  show "snd (snd (offer_actions e' rl' d' uid' ''take'' req_id' master_id')) = d'"
    using x(1) by (simp add: offer_actions_db split: option.splits)
  show "fst (offer_actions e' rl' d' uid' ''take'' req_id' master_id')
              \<in> {Too_many_actions, Order_not_found, Auth_error, Already_taken, Upsell}"
    using x(2) by (auto simp: offer_actions_reply split: option.splits)
  show "fst (offer_actions e' rl' d' uid' ''take'' req_id' master_id') = Upsell"
    if "rate_ok e' rl' uid' \<and> request_status e' d' req_id' = Some ''new''
              \<and> owns e' d' uid' master_id'"
    using that x(3)[of uid' "''new''" req_id'] by (simp add: offer_actions_reply)
qed

theorem free_orders_ledger_witness:
  "masters_inv (snd initial_world) \<and> masters_inv db_new
   \<and> map m_free_orders_left
       (masters (snd (run [(env0, Offer_action ''102'' ''take'' 1 2),
                           (env0, Offer_action ''103'' ''take'' 1 3)] (rl0, db_new))))
       = [Some 3, Some 2, Some 0]
   \<and> list_all free_ok
       (masters (snd (run [(env0, Offer_action ''102'' ''take'' 1 2),
                           (env0, Offer_action ''103'' ''take'' 1 3)] (rl0, db_new))))
   \<and> fst (offer_actions env0 rl0 db_new ''102'' ''take'' 1 2) = Claimed
   \<and> entitlement_row env0 db_new 2 = Some (ex_master 2 ''102'' None 3)
   \<and> map m_free_orders_left (masters (snd (snd (offer_actions env0 rl0 db_new ''102'' ''take'' 1 2))))
       = [Some 3, Some 2, Some 0]
   \<and> entitlement_row env0 db_new 3 = Some (ex_master 3 ''103'' None 0)
   \<and> rate_ok env0 rl0 ''103'' \<and> request_status env0 db_new 1 = Some ''new''
   \<and> owns env0 db_new ''103'' 3
   \<and> fst (offer_actions env0 rl0 db_new ''103'' ''take'' 1 3) = Upsell
   \<and> snd (snd (offer_actions env0 rl0 db_new ''103'' ''take'' 1 3)) = db_new"
proof -
  note t = free_orders_ledger[where start=db_new and limiter=rl0
      and evs="[(env0, Offer_action ''102'' ''take'' 1 2), (env0, Offer_action ''103'' ''take'' 1 3)]"
      and e=env0 and rl=rl0 and d=db_new and uid="''102''" and req_id=1 and master_id=2
      and m="ex_master 2 ''102'' None 3"
      and e'=env0 and d'=db_new and master_id'=3 and m'="ex_master 3 ''103'' None 0"
      and rl'=rl0 and uid'="''103''" and req_id'=1]
  have inv: "masters_inv db_new" by (simp add: masters_inv_def free_ok_def ex_defs)
  have inv0: "masters_inv (snd initial_world)"
    by (simp add: masters_inv_def initial_world_def empty_db_def)
  have run: "map m_free_orders_left
       (masters (snd (run [(env0, Offer_action ''102'' ''take'' 1 2),
                           (env0, Offer_action ''103'' ''take'' 1 3)] (rl0, db_new))))
       = [Some 3, Some 2, Some 0]"
    by (simp add: oa_defs ex_defs Let_def)
  have b1: "fst (offer_actions env0 rl0 db_new ''102'' ''take'' 1 2) = Claimed"
    by (simp add: ex_defs oa_defs)
  have b2: "entitlement_row env0 db_new 2 = Some (ex_master 2 ''102'' None 3)"
    by (simp add: entitlement_row_def fetch_one_def ex_defs)
  have b3: "\<not> is_active env0 (m_sub_until (ex_master 2 ''102'' None 3))"
    "\<not> write_lost env0 OA_debit"
    by (simp_all add: is_active_def ex_defs)
  have b4: "map m_free_orders_left
      (map (\<lambda>r. if m_id r = 2
                 then r\<lparr>m_free_orders_left := map_option (\<lambda>n. n - 1) (m_free_orders_left r)\<rparr>
                 else r) (masters db_new)) = [Some 3, Some 2, Some 0]"
    by (simp add: ex_defs)
  have c1: "entitlement_row env0 db_new 3 = Some (ex_master 3 ''103'' None 0)"
    by (simp add: entitlement_row_def fetch_one_def ex_defs)
  have c2: "\<not> is_active env0 (m_sub_until (ex_master 3 ''103'' None 0))"
    "m_free_orders_left (ex_master 3 ''103'' None 0) = Some 0"
    by (simp_all add: is_active_def ex_defs)
  have c3: "rate_ok env0 rl0 ''103''" "request_status env0 db_new 1 = Some ''new''"
    "owns env0 db_new ''103'' 3"
    by (simp_all add: rate_ok_def check_limit_def request_status_def owns_def fetch_one_def ex_defs)
  have ta: "list_all free_ok
       (masters (snd (run [(env0, Offer_action ''102'' ''take'' 1 2),
                           (env0, Offer_action ''103'' ''take'' 1 3)] (rl0, db_new))))"
    using t inv by blast
  have tb: "masters (snd (snd (offer_actions env0 rl0 db_new ''102'' ''take'' 1 2)))
      = map (\<lambda>r. if m_id r = 2
                  then r\<lparr>m_free_orders_left := map_option (\<lambda>n. n - 1) (m_free_orders_left r)\<rparr>
                  else r) (masters db_new)"
    using t b1 b2 b3 by blast
  have tc: "fst (offer_actions env0 rl0 db_new ''103'' ''take'' 1 3) = Upsell"
    "snd (snd (offer_actions env0 rl0 db_new ''103'' ''take'' 1 3)) = db_new"
    using t c1 c2 c3 by blast+
  show ?thesis unfolding tb b4 using inv0 inv run ta b1 b2 c1 c3 tc by blast
qed
section \<open>At most one taken offer per request\<close>

lemma quiet_refl [simp]: "quiet d d"
  by (auto simp: quiet_def)

lemma subseq_distinct: "subseq xs ys \<Longrightarrow> distinct ys \<Longrightarrow> distinct xs"
proof (induction rule: list_emb.induct)
  case (list_emb_Cons xs ys y)
  then show ?case by simp
next
  case (list_emb_Cons2 x y xs ys)
  from list_emb_Cons2(2) have "set xs \<subseteq> set ys" by (auto dest: list_emb_set)
  with list_emb_Cons2 show ?case by auto
qed simp

lemma subseq_set: "subseq xs ys \<Longrightarrow> set xs \<subseteq> set ys"
  by (auto dest: list_emb_set)

lemma quiet_trans:
  assumes "quiet d d'" and "quiet d' d''"
  shows "quiet d d''"
proof -
  from assms have "subseq (map m_id (masters d'')) (map m_id (masters d'))"
    "subseq (map m_id (masters d')) (map m_id (masters d))" by (simp_all add: quiet_def)
  then have s: "subseq (map m_id (masters d'')) (map m_id (masters d))"
    by (rule subseq_order.order_trans)
  have q: "\<exists>q \<in> set (requests d). r_id q = r_id q'' \<and> (r_status q'' = ''new'' \<longrightarrow> r_status q = ''new'')"
    if "q'' \<in> set (requests d'')" for q''
  proof -
    from assms(2) that obtain q' where q': "q' \<in> set (requests d')" "r_id q' = r_id q''"
      "r_status q'' = ''new'' \<longrightarrow> r_status q' = ''new''"
      unfolding quiet_def by blast
    from assms(1) q'(1) obtain q where q: "q \<in> set (requests d)" "r_id q = r_id q'"
      "r_status q' = ''new'' \<longrightarrow> r_status q = ''new''"
      unfolding quiet_def by blast
    from q q' show ?thesis by auto
  qed
  from assms have "offers d'' = offers d" "seq_requests d'' = seq_requests d"
    "seq_masters d'' = seq_masters d" by (simp_all add: quiet_def)
  with s q show ?thesis unfolding quiet_def by blast
qed

lemma ids_inv_quiet:
  assumes "ids_inv d" and "quiet d d'"
  shows "ids_inv d'"
proof -
  from assms(2) have sub: "subseq (map m_id (masters d')) (map m_id (masters d))"
    and o: "offers d' = offers d" and s: "seq_requests d' = seq_requests d"
      "seq_masters d' = seq_masters d"
    and q: "\<And>q'. q' \<in> set (requests d') \<Longrightarrow> \<exists>q \<in> set (requests d). r_id q = r_id q'"
    by (auto simp: quiet_def)
  from assms(1) have "distinct (map m_id (masters d))" by (simp add: ids_inv_def)
  with sub have d1: "distinct (map m_id (masters d'))" by (rule subseq_distinct)
  from sub have ss: "set (map m_id (masters d')) \<subseteq> set (map m_id (masters d))"
    by (rule subseq_set)
  from assms(1) have le: "\<And>i. i \<in> set (map m_id (masters d)) \<Longrightarrow> i \<le> seq_masters d"
    by (auto simp: ids_inv_def list_all_iff)
  have d2: "list_all (\<lambda>m. m_id m \<le> seq_masters d') (masters d')"
    unfolding list_all_iff s
  proof
    fix m assume "m \<in> set (masters d')"
    then have "m_id m \<in> set (map m_id (masters d'))" by simp
    with ss le show "m_id m \<le> seq_masters d" by blast
  qed
  from assms(1) have rle: "\<And>q. q \<in> set (requests d) \<Longrightarrow> r_id q \<le> seq_requests d"
    by (auto simp: ids_inv_def list_all_iff)
  have d3: "list_all (\<lambda>q. r_id q \<le> seq_requests d') (requests d')"
    unfolding list_all_iff s
  proof
    fix q' assume "q' \<in> set (requests d')"
    from q[OF this] obtain q0 where "q0 \<in> set (requests d)" "r_id q0 = r_id q'" by blast
    with rle[of q0] show "r_id q' \<le> seq_requests d" by simp
  qed
  from assms(1) have d4: "list_all (\<lambda>ofr. case o_request_id ofr of None \<Rightarrow> True | Some r \<Rightarrow> r \<le> seq_requests d)
          (offers d)"
    and d5: "distinct (map (\<lambda>ofr. (o_request_id ofr, o_master_id ofr))
                   (filter (\<lambda>ofr. o_request_id ofr \<noteq> None) (offers d)))"
    by (simp_all add: ids_inv_def)
  show ?thesis unfolding ids_inv_def o using d1 d2 d3 d4 d5 unfolding s by (intro conjI)
qed

lemma taken_invD1:
  "taken_inv d \<Longrightarrow> ofr \<in> set (offers d) \<Longrightarrow> q \<in> set (requests d)
   \<Longrightarrow> o_status ofr = ''taken'' \<Longrightarrow> o_request_id ofr = Some (r_id q) \<Longrightarrow> r_status q \<noteq> ''new''"
  unfolding taken_inv_def by blast

lemma taken_invD2:
  "taken_inv d \<Longrightarrow> o1 \<in> set (offers d) \<Longrightarrow> o2 \<in> set (offers d)
   \<Longrightarrow> o_status o1 = ''taken'' \<Longrightarrow> o_status o2 = ''taken''
   \<Longrightarrow> o_request_id o1 = Some r \<Longrightarrow> o_request_id o2 = Some r
   \<Longrightarrow> o_master_id o1 = o_master_id o2"
  unfolding taken_inv_def by blast

lemma taken_invI:
  assumes "\<And>ofr q. ofr \<in> set (offers d) \<Longrightarrow> q \<in> set (requests d)
             \<Longrightarrow> o_status ofr = ''taken'' \<Longrightarrow> o_request_id ofr = Some (r_id q)
             \<Longrightarrow> r_status q \<noteq> ''new''"
    and "\<And>o1 o2 r. o1 \<in> set (offers d) \<Longrightarrow> o2 \<in> set (offers d)
             \<Longrightarrow> o_status o1 = ''taken'' \<Longrightarrow> o_status o2 = ''taken''
             \<Longrightarrow> o_request_id o1 = Some r \<Longrightarrow> o_request_id o2 = Some r
             \<Longrightarrow> o_master_id o1 = o_master_id o2"
  shows "taken_inv d"
  unfolding taken_inv_def using assms by blast

lemma taken_inv_quiet:
  assumes "taken_inv d" and "quiet d d'"
  shows "taken_inv d'"
proof (rule taken_invI)
  from assms(2) have o: "offers d' = offers d" by (simp add: quiet_def)
  fix ofr q'
  assume a: "ofr \<in> set (offers d')" "q' \<in> set (requests d')" "o_status ofr = ''taken''"
       "o_request_id ofr = Some (r_id q')"
  from assms(2) a(2) obtain q0 where q0: "q0 \<in> set (requests d)" "r_id q0 = r_id q'"
      "r_status q' = ''new'' \<longrightarrow> r_status q0 = ''new''"
    unfolding quiet_def by blast
  from a(1) o have "ofr \<in> set (offers d)" by simp
  from taken_invD1[OF assms(1) this q0(1) a(3)] a(4) q0(2) have "r_status q0 \<noteq> ''new''" by simp
  with q0(3) show "r_status q' \<noteq> ''new''" by blast
next
  from assms(2) have o: "offers d' = offers d" by (simp add: quiet_def)
  fix o1 o2 r
  assume "o1 \<in> set (offers d')" "o2 \<in> set (offers d')" "o_status o1 = ''taken''"
    "o_status o2 = ''taken''" "o_request_id o1 = Some r" "o_request_id o2 = Some r"
  then show "o_master_id o1 = o_master_id o2"
    unfolding o by (rule taken_invD2[OF assms(1)])
qed

lemma offers_inv_quiet: "offers_inv d \<Longrightarrow> quiet d d' \<Longrightarrow> offers_inv d'"
  unfolding offers_inv_def using ids_inv_quiet taken_inv_quiet by blast


lemma quietI:
  assumes "offers d' = offers d" and "seq_requests d' = seq_requests d"
    and "seq_masters d' = seq_masters d"
    and "subseq (map m_id (masters d')) (map m_id (masters d))"
    and "\<And>q'. q' \<in> set (requests d') \<Longrightarrow>
           \<exists>q \<in> set (requests d). r_id q = r_id q' \<and> (r_status q' = ''new'' \<longrightarrow> r_status q = ''new'')"
  shows "quiet d d'"
  unfolding quiet_def using assms by blast

lemma quiet_requests_map:
  assumes "\<And>q. r_id (f q) = r_id q" and "\<And>q. r_status (f q) = ''new'' \<Longrightarrow> r_status q = ''new''"
  shows "quiet d (d\<lparr>requests := map f (requests d)\<rparr>)"
proof (rule quietI)
  fix q' assume "q' \<in> set (requests (d\<lparr>requests := map f (requests d)\<rparr>))"
  then obtain q where "q \<in> set (requests d)" "q' = f q" by auto
  with assms show "\<exists>q \<in> set (requests d). r_id q = r_id q' \<and> (r_status q' = ''new'' \<longrightarrow> r_status q = ''new'')"
    by auto
qed simp_all

lemma quiet_masters_map:
  assumes "\<And>m. m_id (f m) = m_id m"
  shows "quiet d (d\<lparr>masters := map f (masters d)\<rparr>)"
proof (rule quietI)
  show "subseq (map m_id (masters (d\<lparr>masters := map f (masters d)\<rparr>))) (map m_id (masters d))"
    using assms by (simp add: comp_def)
qed auto

lemma quiet_execute: "(\<And>d. quiet d (f d)) \<Longrightarrow> quiet d (execute e s f d)"
  by (simp add: execute_def)

lemma quiet_set_completed: "quiet d (set_completed now rid d)"
  unfolding set_completed_def by (rule quiet_requests_map) (simp_all split: if_splits)

lemma quiet_set_review_requested: "quiet d (set_review_requested rid d)"
  unfolding set_review_requested_def by (rule quiet_requests_map) (simp_all split: if_splits)

lemma quiet_set_status: "st \<noteq> ''new'' \<Longrightarrow> quiet d (set_status st rid d)"
  unfolding set_status_def by (rule quiet_requests_map) (simp_all split: if_splits)

lemma quiet_bump: "quiet d (bump_orders_completed tier mid d)"
  unfolding bump_orders_completed_def by (rule quiet_masters_map) simp

lemma quiet_set_master_stats: "quiet d (set_master_stats a c mid d)"
  unfolding set_master_stats_def by (rule quiet_masters_map) simp

lemma quiet_insert_review: "quiet d (insert_review rid mid c rating d)"
  by (rule quietI) (auto simp: insert_review_def)

lemma quiet_set_review_comment: "quiet d (set_review_comment body rid d)"
  by (rule quietI) (auto simp: set_review_comment_def)

lemma quiet_debit: "quiet d (debit_free_order mid d)"
  unfolding debit_free_order_def by (rule quiet_masters_map) simp

lemma quiet_request_review: "quiet d (snd (request_review e d rid))"
  by (simp add: request_review_def request_review_after_flag_def quiet_execute
        quiet_set_review_requested split: option.splits)

lemma quiet_update_master_stats: "quiet d (update_master_stats e d mid)"
  by (simp add: update_master_stats_def Let_def quiet_execute quiet_set_master_stats)

lemma quiet_mark_request_completed: "quiet d (snd (mark_request_completed e d rid))"
proof (cases "fetch_one e MC_select_request (filter (\<lambda>r. r_id r = rid) (requests d))")
  case None then show ?thesis by (simp add: mark_request_completed_def)
next
  case (Some request)
  let ?d1 = "execute e MC_complete (set_completed (utcnow e) rid) d"
  let ?d2 = "snd (request_review e ?d1 rid)"
  have 1: "quiet d ?d1" by (rule quiet_execute) (rule quiet_set_completed)
  have 2: "quiet ?d1 ?d2" by (rule quiet_request_review)
  have 3: "quiet ?d2 (execute e MC_update_master
       (bump_orders_completed (calc_skill_tier e ?d2 (r_master_id request)) (r_master_id request)) ?d2)"
    by (rule quiet_execute) (rule quiet_bump)
  from quiet_trans[OF quiet_trans[OF 1 2] 3] Some show ?thesis
    by (simp add: mark_request_completed_def Let_def)
qed

lemma quiet_batch: "quiet d (auto_complete_batch es i d pending)"
proof (induction pending arbitrary: i d)
  case Nil show ?case by simp
next
  case (Cons req pending)
  from quiet_trans[OF quiet_mark_request_completed Cons.IH] show ?case by simp
qed

lemma quiet_sweep: "quiet d (periodic_cleanup e es d)"
  by (simp add: periodic_cleanup_def quiet_batch)

lemma quiet_complete_order: "quiet d (snd (complete_order e d uid rid))"
  by (simp add: complete_order_def quiet_execute quiet_set_status split: option.splits)

lemma quiet_client_confirmation: "quiet d (snd (client_confirmation e d rid answer))"
proof -
  have b: "snd (case mark_request_completed e d rid of (True, d') \<Rightarrow> (Confirm_thanks, d')
                | (False, d') \<Rightarrow> (Confirm_failed, d')) = snd (mark_request_completed e d rid)"
    by (simp split: prod.splits bool.splits)
  show ?thesis
    by (simp add: client_confirmation_def b quiet_mark_request_completed quiet_execute
          quiet_set_status split: option.splits)
qed

lemma quiet_process_rating: "quiet d (snd (process_rating e d uid rid rating))"
proof (cases "fetch_one e PR_select_request (filter (\<lambda>r. r_id r = rid) (requests d))")
  case None then show ?thesis by (simp add: process_rating_def)
next
  case (Some request)
  let ?d1 = "rated e d uid rid rating (r_master_id request)"
  have 1: "quiet d ?d1"
    by (simp add: rated_def quiet_execute quiet_insert_review split: option.splits)
  from quiet_trans[OF 1 quiet_update_master_stats] 1 Some show ?thesis
    by (simp add: process_rating_def Let_def)
qed

lemma quiet_comp_text: "quiet d (comp_text e d rid body)"
  by (simp add: comp_text_def quiet_execute quiet_set_review_comment split: option.splits)

lemma quiet_payment: "quiet d (payment_done e d uid payload)"
  by (simp add: payment_done_def quiet_execute quiet_masters_map)

lemma quiet_npd: "quiet d (mf_npd_doc e d mid)"
  by (simp add: mf_npd_doc_def quiet_execute quiet_masters_map)

lemma quiet_delete: "quiet d (delete_profile e d uid)"
proof -
  have 1: "quiet d0 (d0\<lparr>masters := filter P (masters d0)\<rparr>)" for P d0
    by (rule quietI) (auto simp: filter_map[symmetric] intro: subseq_map)
  have 2: "quiet d0 (d0\<lparr>requests := filter P (requests d0)\<rparr>)" for P d0
    by (rule quietI) auto
  show ?thesis unfolding delete_profile_def Let_def
    by (rule quiet_trans[OF quiet_execute quiet_execute]) (rule 1 2)+
qed

lemma ids_invD:
  assumes "ids_inv d"
  shows "distinct (map m_id (masters d))"
    and "\<And>m. m \<in> set (masters d) \<Longrightarrow> m_id m \<le> seq_masters d"
    and "\<And>q. q \<in> set (requests d) \<Longrightarrow> r_id q \<le> seq_requests d"
    and "\<And>ofr r. ofr \<in> set (offers d) \<Longrightarrow> o_request_id ofr = Some r \<Longrightarrow> r \<le> seq_requests d"
    and "distinct (map (\<lambda>ofr. (o_request_id ofr, o_master_id ofr))
                   (filter (\<lambda>ofr. o_request_id ofr \<noteq> None) (offers d)))"
  using assms by (auto simp: ids_inv_def list_all_iff split: option.splits)

lemma ids_invI:
  assumes "distinct (map m_id (masters d))"
    and "\<And>m. m \<in> set (masters d) \<Longrightarrow> m_id m \<le> seq_masters d"
    and "\<And>q. q \<in> set (requests d) \<Longrightarrow> r_id q \<le> seq_requests d"
    and "\<And>ofr r. ofr \<in> set (offers d) \<Longrightarrow> o_request_id ofr = Some r \<Longrightarrow> r \<le> seq_requests d"
    and "distinct (map (\<lambda>ofr. (o_request_id ofr, o_master_id ofr))
                   (filter (\<lambda>ofr. o_request_id ofr \<noteq> None) (offers d)))"
  shows "ids_inv d"
  unfolding ids_inv_def list_all_iff using assms by (auto split: option.splits)


lemma taken_inv_cong:
  "offers d' = offers d \<Longrightarrow> requests d' = requests d \<Longrightarrow> taken_inv d' = taken_inv d"
  by (simp add: taken_inv_def)

lemma insert_request_proj [simp]:
  "offers (insert_request contact category uid now d) = offers d"
  "masters (insert_request contact category uid now d) = masters d"
  "seq_masters (insert_request contact category uid now d) = seq_masters d"
  "seq_requests (insert_request contact category uid now d) = seq_requests d + 1"
  "set (requests (insert_request contact category uid now d))
     = set (requests d) \<union> {\<lparr>r_id = seq_requests d + 1, r_status = ''new'', r_master_id = None,
            r_contact = contact, r_client_user_id = Some uid, r_category = category,
            r_review_requested = 0, r_completed_at = None, r_created_at = now\<rparr>}"
  by (simp_all add: insert_request_def)

lemma insert_offer_proj [simp]:
  "requests (insert_offer rid mid d) = requests d"
  "masters (insert_offer rid mid d) = masters d"
  "seq_masters (insert_offer rid mid d) = seq_masters d"
  "seq_requests (insert_offer rid mid d) = seq_requests d"
  "offers (insert_offer rid mid d) = offers d @ [\<lparr>o_id = seq_offers d + 1, o_request_id = rid,
      o_master_id = mid, o_status = ''sent''\<rparr>]"
  by (simp_all add: insert_offer_def)

lemma offers_inv_register:
  "offers_inv d \<Longrightarrow> offers_inv (mf_verify_no e d uid cats)"
  "offers_inv d \<Longrightarrow> offers_inv (mf_face_photo e d uid cats)"
  by (simp_all add: mf_verify_no_def mf_face_photo_def unparsable_def Let_def)

lemma offers_inv_insert_request:
  assumes "offers_inv d"
  shows "offers_inv (insert_request contact category uid now d)"
proof -
  let ?d' = "insert_request contact category uid now d"
  from assms have i: "ids_inv d" and t: "taken_inv d" by (simp_all add: offers_inv_def)
  note D = ids_invD[OF i]
  have "ids_inv ?d'"
  proof (rule ids_invI)
    show "distinct (map m_id (masters ?d'))" using D(1) by simp
    show "m_id m \<le> seq_masters ?d'" if "m \<in> set (masters ?d')" for m
      using that D(2)[of m] by simp
    show "r_id q \<le> seq_requests ?d'" if "q \<in> set (requests ?d')" for q
      using that D(3)[of q] by auto
    show "r \<le> seq_requests ?d'" if "ofr \<in> set (offers ?d')" "o_request_id ofr = Some r" for ofr r
      using that D(4)[of ofr r] by simp
    show "distinct (map (\<lambda>ofr. (o_request_id ofr, o_master_id ofr))
                   (filter (\<lambda>ofr. o_request_id ofr \<noteq> None) (offers ?d')))"
      using D(5) by simp
  qed
  moreover have "taken_inv ?d'"
  proof (rule taken_invI)
    fix ofr q
    assume a: "ofr \<in> set (offers ?d')" "q \<in> set (requests ?d')" "o_status ofr = ''taken''"
      "o_request_id ofr = Some (r_id q)"
    from a(1) have o: "ofr \<in> set (offers d)" by simp
    from D(4)[OF o a(4)] have le: "r_id q \<le> seq_requests d" .
    from a(2) have "q \<in> set (requests d) \<or> r_id q = seq_requests d + 1"
      by auto
    with le have "q \<in> set (requests d)" by auto
    from taken_invD1[OF t o this a(3,4)] show "r_status q \<noteq> ''new''" .
  next
    fix o1 o2 r
    assume "o1 \<in> set (offers ?d')" "o2 \<in> set (offers ?d')" "o_status o1 = ''taken''"
      "o_status o2 = ''taken''" "o_request_id o1 = Some r" "o_request_id o2 = Some r"
    then show "o_master_id o1 = o_master_id o2"
      using taken_invD2[OF t, of o1 o2 r] by simp
  qed
  ultimately show ?thesis by (simp add: offers_inv_def)
qed

lemma offers_inv_insert_offer:
  assumes "offers_inv d"
    and "\<And>r. rid = Some r \<Longrightarrow> r \<le> seq_requests d"
    and "\<And>ofr r. ofr \<in> set (offers d) \<Longrightarrow> rid = Some r \<Longrightarrow> o_request_id ofr = Some r
           \<Longrightarrow> o_master_id ofr \<noteq> mid"
  shows "offers_inv (insert_offer rid mid d)"
proof -
  let ?d' = "insert_offer rid mid d"
  from assms have i: "ids_inv d" and t: "taken_inv d" by (simp_all add: offers_inv_def)
  note D = ids_invD[OF i]
  have "ids_inv ?d'"
  proof (rule ids_invI)
    show "distinct (map m_id (masters ?d'))" using D(1) by simp
    show "m_id m \<le> seq_masters ?d'" if "m \<in> set (masters ?d')" for m
      using that D(2)[of m] by simp
    show "r_id q \<le> seq_requests ?d'" if "q \<in> set (requests ?d')" for q
      using that D(3)[of q] by simp
    show "r \<le> seq_requests ?d'" if "ofr \<in> set (offers ?d')" "o_request_id ofr = Some r" for ofr r
      using that D(4)[of ofr r] assms(2)[of r] by auto
    show "distinct (map (\<lambda>ofr. (o_request_id ofr, o_master_id ofr))
                   (filter (\<lambda>ofr. o_request_id ofr \<noteq> None) (offers ?d')))"
    proof (cases rid)
      case None
      then show ?thesis using D(5) by simp
    next
      case (Some r)
      have "(Some r, mid) \<notin> (\<lambda>ofr. (o_request_id ofr, o_master_id ofr)) ` set (offers d)"
      proof
        assume "(Some r, mid) \<in> (\<lambda>ofr. (o_request_id ofr, o_master_id ofr)) ` set (offers d)"
        then obtain ofr where o: "ofr \<in> set (offers d)" "o_request_id ofr = Some r"
          "o_master_id ofr = mid" by auto
        from assms(3)[OF o(1) Some o(2)] o(3) show False by simp
      qed
      then show ?thesis using D(5) Some by auto
    qed
  qed
  moreover have "taken_inv ?d'"
  proof (rule taken_invI)
    fix ofr q
    assume a: "ofr \<in> set (offers ?d')" "q \<in> set (requests ?d')" "o_status ofr = ''taken''"
      "o_request_id ofr = Some (r_id q)"
    from a(1,3) have o: "ofr \<in> set (offers d)" by auto
    from a(2) have "q \<in> set (requests d)" by simp
    from taken_invD1[OF t o this a(3,4)] show "r_status q \<noteq> ''new''" .
  next
    fix o1 o2 r
    assume a: "o1 \<in> set (offers ?d')" "o2 \<in> set (offers ?d')" "o_status o1 = ''taken''"
      "o_status o2 = ''taken''" "o_request_id o1 = Some r" "o_request_id o2 = Some r"
    from a(1,3) have 1: "o1 \<in> set (offers d)" by auto
    from a(2,4) have 2: "o2 \<in> set (offers d)" by auto
    from taken_invD2[OF t 1 2 a(3-6)] show "o_master_id o1 = o_master_id o2" .
  qed
  ultimately show ?thesis by (simp add: offers_inv_def)
qed

lemma quiet_deactivate: "quiet d (deactivate mid d)"
  unfolding deactivate_def by (rule quiet_masters_map) simp

lemma offers_inv_stored_offer:
  assumes "offers_inv d"
    and "\<And>r. rid = Some r \<Longrightarrow> r \<le> seq_requests d"
    and "\<And>ofr r. ofr \<in> set (offers d) \<Longrightarrow> rid = Some r \<Longrightarrow> o_request_id ofr = Some r
           \<Longrightarrow> o_master_id ofr \<noteq> m_id m"
  shows "offers_inv (execute e (SM_insert (m_id m)) (insert_offer rid (m_id m)) d)"
  using offers_inv_insert_offer[OF assms] assms(1) by (simp add: execute_def)

lemma stored_offer_frame:
  "seq_requests (execute e (SM_insert (m_id m)) (insert_offer rid (m_id m)) d) = seq_requests d"
  "set (offers (execute e (SM_insert (m_id m)) (insert_offer rid (m_id m)) d))
     \<subseteq> set (offers d) \<union> {\<lparr>o_id = seq_offers d + 1, o_request_id = rid, o_master_id = m_id m,
                              o_status = ''sent''\<rparr>}"
  by (auto simp: execute_def insert_offer_def)

lemma quiet_notify_master: "quiet d (notify_master e d m)"
  by (simp add: notify_master_def quiet_execute quiet_deactivate split: delivery.splits)

lemma offers_inv_broadcast:
  assumes "offers_inv d"
    and "\<And>r. rid = Some r \<Longrightarrow> r \<le> seq_requests d"
    and "distinct (map m_id ms)"
    and "\<And>ofr r m. ofr \<in> set (offers d) \<Longrightarrow> m \<in> set ms \<Longrightarrow> rid = Some r
           \<Longrightarrow> o_request_id ofr = Some r \<Longrightarrow> o_master_id ofr \<noteq> m_id m"
  shows "offers_inv (snd (offer_loop e rid d ms))"
  using assms
proof (induction ms arbitrary: d)
  case Nil then show ?case by simp
next
  case (Cons m ms)
  let ?d1 = "execute e (SM_insert (m_id m)) (insert_offer rid (m_id m)) d"
  let ?d2 = "notify_master e ?d1 m"
  have 1: "offers_inv ?d1"
  proof (rule offers_inv_stored_offer[OF Cons.prems(1,2)])
    fix ofr r assume "ofr \<in> set (offers d)" "rid = Some r" "o_request_id ofr = Some r"
    then show "o_master_id ofr \<noteq> m_id m" by (rule Cons.prems(4)[where m=m, simplified])
  qed
  have q: "quiet ?d1 ?d2" by (rule quiet_notify_master)
  from offers_inv_quiet[OF 1 q] have o2: "offers_inv ?d2" .
  from q have same: "offers ?d2 = offers ?d1" "seq_requests ?d2 = seq_requests ?d1"
    by (simp_all add: quiet_def)
  have 2: "r \<le> seq_requests ?d2" if "rid = Some r" for r
    using Cons.prems(2)[OF that] by (simp add: same stored_offer_frame)
  have 3: "distinct (map m_id ms)" using Cons.prems(3) by simp
  have 4: "o_master_id ofr \<noteq> m_id m'"
    if "ofr \<in> set (offers ?d2)" "m' \<in> set ms" "rid = Some r" "o_request_id ofr = Some r"
    for ofr r m'
  proof -
    from that(1) stored_offer_frame(2)[of e m rid d]
    have "ofr \<in> set (offers d) \<or> o_master_id ofr = m_id m" unfolding same by auto
    then show ?thesis
    proof
      assume "ofr \<in> set (offers d)"
      from Cons.prems(4)[OF this _ that(3,4), of m'] that(2) show ?thesis by simp
    next
      assume "o_master_id ofr = m_id m"
      with Cons.prems(3) that(2) show ?thesis by auto
    qed
  qed
  show ?case
  proof (cases "commit_raises e (SM_insert (m_id m))")
    case True
    with 1 show ?thesis by (simp add: Let_def)
  next
    case False
    with Cons.IH[OF o2 2 3 4] show ?thesis by (simp add: Let_def)
  qed
qed

lemma distinct_map_insort:
  "distinct (map f (insort_key k x xs)) = (f x \<notin> f ` set xs \<and> distinct (map f xs))"
  by (induction xs) (auto simp: set_insort_key)

lemma distinct_map_sort_key: "distinct (map f (sort_key k xs)) = distinct (map f xs)"
  by (induction xs) (simp_all add: distinct_map_insort)

lemma select_masters_distinct:
  assumes "distinct (map m_id (masters d))"
  shows "distinct (map m_id (select_masters e d category))"
proof -
  from assms have "distinct (map m_id (filter (\<lambda>m. m_is_active m = 1) (masters d)))"
    by (rule distinct_map_filter)
  then have "distinct (map m_id (select_active e d))"
    by (simp add: select_active_def fetch_all_def distinct_map_sort_key)
  then have "distinct (map m_id (survivors e d category))"
    unfolding survivors_def by (rule distinct_map_filter)
  then have "distinct (map m_id (sort_key (sort_key_row e) (survivors e d category)))"
    by (simp add: distinct_map_sort_key)
  then show ?thesis
    by (simp add: select_masters_def take_map[symmetric] distinct_take)
qed

lemma offers_inv_send:
  assumes "offers_inv d"
    and "\<And>r. rid = Some r \<Longrightarrow> r \<le> seq_requests d"
    and "\<And>ofr r. ofr \<in> set (offers d) \<Longrightarrow> rid = Some r \<Longrightarrow> o_request_id ofr \<noteq> Some r"
  shows "offers_inv (snd (send_to_masters e d rid category))"
  unfolding send_to_masters_def
proof (rule offers_inv_broadcast[OF assms(1,2)])
  from assms(1) have "distinct (map m_id (masters d))"
    by (simp add: offers_inv_def ids_inv_def)
  then show "distinct (map m_id (select_masters e d category))" by (rule select_masters_distinct)
next
  fix ofr r m
  assume "ofr \<in> set (offers d)" "rid = Some r" "o_request_id ofr = Some r"
  with assms(3) show "o_master_id ofr \<noteq> m_id m" by blast
qed simp

lemma offers_inv_submit:
  assumes "offers_inv d"
  shows "offers_inv (req_submit e d uid contact category)"
proof -
  let ?ins = "insert_request contact category uid (utcnow e) d"
  let ?d1 = "execute e RS_insert (insert_request contact category uid (utcnow e)) d"
  let ?rid = "if db_fails e RS_insert then None else Some (seq_requests d + 1)"
  have 1: "offers_inv ?d1"
    using offers_inv_insert_request[OF assms, of contact category uid "utcnow e"] assms
    by (simp add: execute_def)
  have d1: "?d1 = ?ins" if "?rid = Some r" for r
    using that by (simp add: execute_def db_fails_def write_lost_def split: if_splits)
  have "offers_inv (snd (send_to_masters e ?d1 ?rid category))"
  proof (rule offers_inv_send[OF 1])
    fix r assume r: "?rid = Some r"
    then have "r = seq_requests d + 1" by (simp split: if_splits)
    then show "r \<le> seq_requests ?d1" unfolding d1[OF r] by simp
  next
    fix ofr r
    assume a: "ofr \<in> set (offers ?d1)" "?rid = Some r"
    from a(2) have r: "r = seq_requests d + 1" by (simp split: if_splits)
    from assms have i: "ids_inv d" by (simp add: offers_inv_def)
    show "o_request_id ofr \<noteq> Some r"
    proof
      assume b: "o_request_id ofr = Some r"
      from a(1) have "ofr \<in> set (offers d)" unfolding d1[OF a(2)] by simp
      from ids_invD(4)[OF i this b] r show False by simp
    qed
  qed
  with 1 show ?thesis by (simp add: req_submit_def Let_def)
qed

lemma status_upd_pairs:
  "map (\<lambda>ofr. (o_request_id ofr, o_master_id ofr))
     (filter (\<lambda>ofr. o_request_id ofr \<noteq> None)
        (map (\<lambda>ofr. if C ofr then ofr\<lparr>o_status := st\<rparr> else ofr) os))
   = map (\<lambda>ofr. (o_request_id ofr, o_master_id ofr)) (filter (\<lambda>ofr. o_request_id ofr \<noteq> None) os)"
  by (induction os) auto

lemma status_upd_all:
  "list_all (\<lambda>ofr. case o_request_id ofr of None \<Rightarrow> True | Some r \<Rightarrow> r \<le> n)
     (map (\<lambda>ofr. if C ofr then ofr\<lparr>o_status := st\<rparr> else ofr) os)
   = list_all (\<lambda>ofr. case o_request_id ofr of None \<Rightarrow> True | Some r \<Rightarrow> r \<le> n) os"
  by (induction os) auto

lemma set_offer_status_proj:
  "masters (set_offer_status st req mid d) = masters d"
  "seq_masters (set_offer_status st req mid d) = seq_masters d"
  "seq_requests (set_offer_status st req mid d) = seq_requests d"
  "requests (set_offer_status st req mid d) = requests d"
  "offers (set_offer_status st req mid d)
     = map (\<lambda>ofr. if o_request_id ofr = Some req \<and> o_master_id ofr = mid
                   then ofr\<lparr>o_status := st\<rparr> else ofr) (offers d)"
  by (simp_all add: set_offer_status_def)

lemma ids_inv_set_offer_status: "ids_inv (set_offer_status st req mid d) = ids_inv d"
  unfolding ids_inv_def set_offer_status_proj status_upd_pairs status_upd_all by (rule refl)

lemma set_offer_status_mem:
  assumes "ofr' \<in> set (offers (set_offer_status st req mid d))"
  obtains ofr where "ofr \<in> set (offers d)" "o_request_id ofr = o_request_id ofr'"
    "o_master_id ofr = o_master_id ofr'"
    "(o_request_id ofr = Some req \<and> o_master_id ofr = mid \<and> o_status ofr' = st)
     \<or> (\<not> (o_request_id ofr = Some req \<and> o_master_id ofr = mid) \<and> ofr' = ofr)"
proof -
  from assms obtain ofr where o: "ofr \<in> set (offers d)"
    "ofr' = (if o_request_id ofr = Some req \<and> o_master_id ofr = mid then ofr\<lparr>o_status := st\<rparr> else ofr)"
    by (auto simp: set_offer_status_def)
  show ?thesis
  proof (cases "o_request_id ofr = Some req \<and> o_master_id ofr = mid")
    case True with o that[of ofr] show ?thesis by simp
  next
    case False with o that[of ofr] show ?thesis by simp
  qed
qed

lemmas set_offer_status_requests [simp] = set_offer_status_proj(4)

lemma taken_inv_skip:
  assumes "taken_inv d"
  shows "taken_inv (set_offer_status ''skipped'' req mid d)"
proof (rule taken_invI)
  fix ofr' q
  assume a: "ofr' \<in> set (offers (set_offer_status ''skipped'' req mid d))"
    "q \<in> set (requests (set_offer_status ''skipped'' req mid d))"
    "o_status ofr' = ''taken''" "o_request_id ofr' = Some (r_id q)"
  from a(1) obtain ofr where o: "ofr \<in> set (offers d)"
    "(o_request_id ofr = Some req \<and> o_master_id ofr = mid \<and> o_status ofr' = ''skipped'')
     \<or> (\<not> (o_request_id ofr = Some req \<and> o_master_id ofr = mid) \<and> ofr' = ofr)"
    by (rule set_offer_status_mem)
  from o(2) a(3) have e: "ofr' = ofr" by auto
  from a(2) have "q \<in> set (requests d)" by simp
  from taken_invD1[OF assms o(1) this] a(3,4) e show "r_status q \<noteq> ''new''" by simp
next
  fix o1' o2' r
  assume a: "o1' \<in> set (offers (set_offer_status ''skipped'' req mid d))"
    "o2' \<in> set (offers (set_offer_status ''skipped'' req mid d))"
    "o_status o1' = ''taken''" "o_status o2' = ''taken''"
    "o_request_id o1' = Some r" "o_request_id o2' = Some r"
  from a(1) obtain o1 where o1: "o1 \<in> set (offers d)"
    "(o_request_id o1 = Some req \<and> o_master_id o1 = mid \<and> o_status o1' = ''skipped'')
     \<or> (\<not> (o_request_id o1 = Some req \<and> o_master_id o1 = mid) \<and> o1' = o1)"
    by (rule set_offer_status_mem)
  from a(2) obtain o2 where o2: "o2 \<in> set (offers d)"
    "(o_request_id o2 = Some req \<and> o_master_id o2 = mid \<and> o_status o2' = ''skipped'')
     \<or> (\<not> (o_request_id o2 = Some req \<and> o_master_id o2 = mid) \<and> o2' = o2)"
    by (rule set_offer_status_mem)
  from o1(2) a(3) have e1: "o1' = o1" by auto
  from o2(2) a(4) have e2: "o2' = o2" by auto
  from taken_invD2[OF assms o1(1) o2(1), of r] a(3-6) e1 e2
  show "o_master_id o1' = o_master_id o2'" by simp
qed

lemma taken_inv_taken:
  assumes t: "taken_inv d"
    and none: "\<And>ofr. ofr \<in> set (offers d) \<Longrightarrow> o_status ofr = ''taken''
                 \<Longrightarrow> o_request_id ofr \<noteq> Some req"
    and nonnew: "\<And>q. q \<in> set (requests d) \<Longrightarrow> r_id q = req \<Longrightarrow> r_status q \<noteq> ''new''"
  shows "taken_inv (set_offer_status ''taken'' req mid d)"
proof (rule taken_invI)
  fix ofr' q
  assume a: "ofr' \<in> set (offers (set_offer_status ''taken'' req mid d))"
    "q \<in> set (requests (set_offer_status ''taken'' req mid d))"
    "o_status ofr' = ''taken''" "o_request_id ofr' = Some (r_id q)"
  from a(2) have q: "q \<in> set (requests d)" by simp
  from a(1) obtain ofr where o: "ofr \<in> set (offers d)" "o_request_id ofr = o_request_id ofr'"
    "(o_request_id ofr = Some req \<and> o_master_id ofr = mid \<and> o_status ofr' = ''taken'')
     \<or> (\<not> (o_request_id ofr = Some req \<and> o_master_id ofr = mid) \<and> ofr' = ofr)"
    by (rule set_offer_status_mem)
  from o(3) show "r_status q \<noteq> ''new''"
  proof
    assume "o_request_id ofr = Some req \<and> o_master_id ofr = mid \<and> o_status ofr' = ''taken''"
    with o(2) a(4) have "r_id q = req" by simp
    from nonnew[OF q this] show ?thesis .
  next
    assume "\<not> (o_request_id ofr = Some req \<and> o_master_id ofr = mid) \<and> ofr' = ofr"
    then have e: "ofr' = ofr" by simp
    from taken_invD1[OF t o(1) q] a(3,4) e show ?thesis by simp
  qed
next
  fix o1' o2' r
  assume a: "o1' \<in> set (offers (set_offer_status ''taken'' req mid d))"
    "o2' \<in> set (offers (set_offer_status ''taken'' req mid d))"
    "o_status o1' = ''taken''" "o_status o2' = ''taken''"
    "o_request_id o1' = Some r" "o_request_id o2' = Some r"
  from a(1) obtain o1 where o1: "o1 \<in> set (offers d)" "o_request_id o1 = o_request_id o1'"
    "o_master_id o1 = o_master_id o1'"
    "(o_request_id o1 = Some req \<and> o_master_id o1 = mid \<and> o_status o1' = ''taken'')
     \<or> (\<not> (o_request_id o1 = Some req \<and> o_master_id o1 = mid) \<and> o1' = o1)"
    by (rule set_offer_status_mem)
  from a(2) obtain o2 where o2: "o2 \<in> set (offers d)" "o_request_id o2 = o_request_id o2'"
    "o_master_id o2 = o_master_id o2'"
    "(o_request_id o2 = Some req \<and> o_master_id o2 = mid \<and> o_status o2' = ''taken'')
     \<or> (\<not> (o_request_id o2 = Some req \<and> o_master_id o2 = mid) \<and> o2' = o2)"
    by (rule set_offer_status_mem)
  show "o_master_id o1' = o_master_id o2'"
  proof (cases "o_request_id o1 = Some req \<and> o_master_id o1 = mid")
    case m1: True
    show ?thesis
    proof (cases "o_request_id o2 = Some req \<and> o_master_id o2 = mid")
      case True
      with m1 o1(3) o2(3) show ?thesis by simp
    next
      case False
      with o2(4) have e2: "o2' = o2" by blast
      from m1 o1(2) a(5) have "r = req" by simp
      with none[OF o2(1)] a(4,6) e2 show ?thesis by simp
    qed
  next
    case n1: False
    with o1(4) have e1: "o1' = o1" by blast
    show ?thesis
    proof (cases "o_request_id o2 = Some req \<and> o_master_id o2 = mid")
      case True
      from True o2(2) a(6) have "r = req" by simp
      with none[OF o1(1)] a(3,5) e1 show ?thesis by simp
    next
      case False
      with o2(4) have e2: "o2' = o2" by blast
      from taken_invD2[OF t o1(1) o2(1), of r] a(3-6) e1 e2 show ?thesis by simp
    qed
  qed
qed

lemma offers_inv_skip:
  "offers_inv d \<Longrightarrow> offers_inv (execute e s (set_offer_status ''skipped'' req mid) d)"
  by (simp add: offers_inv_def execute_def ids_inv_set_offer_status taken_inv_skip)

lemma quiet_assign: "quiet d (assign_request mid req d)"
  unfolding assign_request_def by (rule quiet_requests_map) (simp_all split: if_splits)

lemma assign_request_proj [simp]:
  "offers (assign_request mid req d) = offers d"
  by (simp add: assign_request_def)

lemma assign_request_nonnew:
  assumes "q \<in> set (requests (assign_request mid req d))" and "r_id q = req"
  shows "r_status q \<noteq> ''new''"
proof -
  from assms(1) obtain q0 where q0: "q0 \<in> set (requests d)"
    "q = (if r_id q0 = req then q0\<lparr>r_status := ''assigned'', r_master_id := Some mid\<rparr> else q0)"
    unfolding assign_request_def by auto
  show ?thesis
  proof (cases "r_id q0 = req")
    case True with q0(2) show ?thesis by simp
  next
    case False with q0(2) assms(2) show ?thesis by simp
  qed
qed

lemma offers_inv_claim_accepted:
  assumes inv: "offers_inv d" and ok: "\<not> write_lost e OA_assign"
    and new: "q0 \<in> set (requests d)" "r_id q0 = req" "r_status q0 = ''new''"
  shows "offers_inv (snd (claim_accepted e d req mid))"
proof -
  let ?d2 = "assign_request mid req d"
  from inv have t: "taken_inv d" by (simp add: offers_inv_def)
  have 2: "offers_inv ?d2" by (rule offers_inv_quiet[OF inv quiet_assign])
  then have i2: "ids_inv ?d2" and t2: "taken_inv ?d2" by (simp_all add: offers_inv_def)
  have none: "o_request_id ofr \<noteq> Some req"
    if "ofr \<in> set (offers ?d2)" "o_status ofr = ''taken''" for ofr
  proof
    assume "o_request_id ofr = Some req"
    with new(2) have "o_request_id ofr = Some (r_id q0)" by simp
    from taken_invD1[OF t _ new(1) that(2) this] that(1) new(3) show False by simp
  qed
  have "taken_inv (set_offer_status ''taken'' req mid ?d2)"
    by (rule taken_inv_taken[OF t2 none]) (auto dest: assign_request_nonnew)
  with i2 have 3: "offers_inv (execute e OA_taken (set_offer_status ''taken'' req mid) ?d2)"
    using 2 by (simp add: offers_inv_def execute_def ids_inv_set_offer_status)
  from 2 3 ok show ?thesis
    by (simp add: claim_accepted_def Let_def execute_def[of e OA_assign] split: option.splits)
qed

lemma offers_inv_take:
  assumes inv: "offers_inv d" and ok: "\<not> write_lost e OA_assign"
    and new: "st = ''new'' \<Longrightarrow> \<exists>q0 \<in> set (requests d). r_id q0 = req \<and> r_status q0 = ''new''"
  shows "offers_inv (snd (offer_take e d uid st req mid))"
proof (cases "st = ''new''")
  case False
  with inv show ?thesis by (simp add: offer_take_def split: option.splits)
next
  case True
  from new[OF True] obtain q0 where q0: "q0 \<in> set (requests d)" "r_id q0 = req"
    "r_status q0 = ''new''" by blast
  have a: "offers_inv (snd (claim_accepted e d req mid))"
    by (rule offers_inv_claim_accepted[OF inv ok q0])
  let ?d1 = "execute e OA_debit (debit_free_order mid) d"
  have 1: "offers_inv ?d1"
    by (rule offers_inv_quiet[OF inv]) (rule quiet_execute, rule quiet_debit)
  have r1: "requests ?d1 = requests d" by (simp add: execute_def debit_free_order_def)
  have b: "offers_inv (snd (claim_accepted e ?d1 req mid))"
    by (rule offers_inv_claim_accepted[OF 1 ok _ q0(2,3)]) (simp add: r1 q0(1))
  from inv a b show ?thesis by (simp add: offer_take_def split: option.splits)
qed

lemma offers_inv_offer_actions:
  assumes inv: "offers_inv d" and ok: "\<not> write_lost e OA_assign"
  shows "offers_inv (snd (snd (offer_actions e rl d uid action req mid)))"
proof (cases "request_status e d req")
  case None
  with inv show ?thesis by (simp add: offer_actions_db)
next
  case (Some st)
  then obtain row where f: "fetch_one e OA_select_request (filter (\<lambda>r. r_id r = req) (requests d)) = Some row"
    and st: "r_status row = st"
    unfolding request_status_def by blast
  from fetch_one_filter_SomeD[OF f] have row: "row \<in> set (requests d)" "r_id row = req" by simp_all
  have t: "offers_inv (snd (offer_take e d uid st req mid))"
  proof (rule offers_inv_take[OF inv ok])
    assume "st = ''new''"
    with row st show "\<exists>q0 \<in> set (requests d). r_id q0 = req \<and> r_status q0 = ''new''" by blast
  qed
  have s: "offers_inv (execute e OA_skip (set_offer_status ''skipped'' req mid) d)"
    by (rule offers_inv_skip[OF inv])
  show ?thesis unfolding offer_actions_db Some using inv t s by simp
qed

lemma offers_inv_handle:
  assumes "offers_inv (snd w)" and "\<not> write_lost e OA_assign"
  shows "offers_inv (snd (handle e ev w))"
proof -
  obtain rl d where w: "w = (rl, d)" by (cases w)
  with assms have inv: "offers_inv d" by simp
  note q = offers_inv_quiet[OF inv]
  show ?thesis
  proof (cases ev)
    case (Offer_action uid action req_id master_id)
    with offers_inv_offer_actions[OF inv assms(2), of rl uid action req_id master_id] show ?thesis
      by (simp add: w)
  next
    case (Register_candidate uid cats)
    with offers_inv_register(1)[OF inv] show ?thesis by (simp add: w)
  next
    case (Register_checked uid cats)
    with offers_inv_register(2)[OF inv] show ?thesis by (simp add: w)
  next
    case (Delete_profile uid)
    with q[OF quiet_delete] show ?thesis by (simp add: w)
  next
    case (Submit_request uid contact category)
    with offers_inv_submit[OF inv] show ?thesis by (simp add: w)
  next
    case (Upgrade_verified mid)
    with q[OF quiet_npd] show ?thesis by (simp add: w)
  next
    case (Payment uid payload)
    with q[OF quiet_payment] show ?thesis by (simp add: w)
  next
    case (Complete_order uid rid)
    with q[OF quiet_complete_order] show ?thesis by (simp add: w)
  next
    case (Confirm rid answer)
    with q[OF quiet_client_confirmation] show ?thesis by (simp add: w)
  next
    case (Rate uid rid rating)
    with q[OF quiet_process_rating] show ?thesis by (simp add: w)
  next
    case (Comment rid body)
    with q[OF quiet_comp_text] show ?thesis by (simp add: w)
  next
    case (Sweep es)
    with q[OF quiet_sweep] show ?thesis by (simp add: w)
  qed
qed

lemma offers_inv_run:
  "offers_inv (snd w) \<Longrightarrow> assign_kept evs \<Longrightarrow> offers_inv (snd (run evs w))"
proof (induction evs arbitrary: w)
  case Nil then show ?case by simp
next
  case (Cons a evs)
  obtain e ev where a: "a = (e, ev)" by (cases a)
  from Cons.prems(2) a have ok: "\<not> write_lost e OA_assign" and rest: "assign_kept evs"
    by (simp_all add: assign_kept_def)
  from Cons.IH[OF offers_inv_handle[OF Cons.prems(1) ok, of ev] rest] show ?case by (simp add: a)
qed

lemma distinct_const_length:
  assumes "distinct (map f xs)" and "\<And>x. x \<in> set xs \<Longrightarrow> f x = c"
  shows "length xs \<le> 1"
proof (cases xs)
  case Nil then show ?thesis by simp
next
  case (Cons x ys)
  show ?thesis
  proof (cases ys)
    case Nil with Cons show ?thesis by simp
  next
    case (Cons y zs)
    with \<open>xs = x # ys\<close> assms(2)[of x] assms(2)[of y] assms(1) show ?thesis by simp
  qed
qed

lemma taken_for_at_most_one:
  assumes "offers_inv d"
  shows "length (taken_for d r) \<le> 1"
proof (cases "taken_for d r")
  case Nil then show ?thesis by simp
next
  case (Cons o0 os)
  from assms have i: "ids_inv d" and t: "taken_inv d" by (simp_all add: offers_inv_def)
  let ?pair = "\<lambda>ofr. (o_request_id ofr, o_master_id ofr)"
  have sub: "taken_for d r
      = filter (\<lambda>ofr. o_request_id ofr = Some r \<and> o_status ofr = ''taken'')
          (filter (\<lambda>ofr. o_request_id ofr \<noteq> None) (offers d))"
    unfolding taken_for_def filter_filter by (rule filter_cong) auto
  from ids_invD(5)[OF i] have "distinct (map ?pair (taken_for d r))"
    unfolding sub by (rule distinct_map_filter)
  moreover from Cons have "o0 \<in> set (taken_for d r)" by simp
  then have o0: "o0 \<in> set (offers d)" "o_status o0 = ''taken''" "o_request_id o0 = Some r"
    by (simp_all add: taken_for_def)
  have "?pair x = (Some r, o_master_id o0)" if "x \<in> set (taken_for d r)" for x
  proof -
    from that have x: "x \<in> set (offers d)" "o_status x = ''taken''" "o_request_id x = Some r"
      by (simp_all add: taken_for_def)
    from taken_invD2[OF t x(1) o0(1) x(2) o0(2) x(3) o0(3)] x(3) show ?thesis by simp
  qed
  ultimately show ?thesis by (rule distinct_const_length)
qed

lemma one_taken_run:
  assumes "offers_inv d" and "assign_kept evs"
  shows "length (taken_for (snd (run evs (rl, d))) r) \<le> 1"
proof (rule taken_for_at_most_one)
  from assms(1) have "offers_inv (snd (rl, d))" by simp
  then show "offers_inv (snd (run evs (rl, d)))" using assms(2) by (rule offers_inv_run)
qed
section \<open>Takes on one request, handled one after another\<close>

lemma check_limit_bound:
  assumes "\<And>key. length (rl key) \<le> length (rb key) + n"
  shows "length (snd (check_limit rl now uid action limit period) key) \<le> length (rb key) + Suc n"
proof -
  let ?kept = "filter (\<lambda>t. now - t < period * 1000000) (rl (uid, action))"
  have k: "length ?kept \<le> length (rb (uid, action)) + n"
    by (rule le_trans[OF length_filter_le assms])
  show ?thesis
  proof (cases "key = (uid, action)")
    case True
    with k show ?thesis
      by (simp add: check_limit_def Let_def)
  next
    case False
    with assms[of key] show ?thesis by (simp add: check_limit_def Let_def)
  qed
qed

lemma rate_ok_bound:
  assumes "\<And>key. length (rl key) \<le> length (rb key) + n"
    and "length (rb (uid, ''offer_actions'')) + n < 10"
  shows "rate_ok e rl uid"
proof -
  let ?kept = "filter (\<lambda>t. local_now e - t < 3600 * 1000000) (rl (uid, ''offer_actions''))"
  have "length ?kept \<le> length (rb (uid, ''offer_actions'')) + n"
    by (rule le_trans[OF length_filter_le assms(1)])
  with assms(2) have "length ?kept < 10" by simp
  then show ?thesis by (simp add: rate_ok_def check_limit_def Let_def)
qed

lemma losers:
  assumes st: "\<And>e. \<not> db_fails e OA_select_request \<Longrightarrow> request_status e d req = Some ''assigned''"
    and own: "\<And>e uid mid. owns e d uid mid = owns e d0 uid mid"
  shows "(\<And>key. length (rl key) \<le> length (rb key) + n) \<Longrightarrow> proper_claims rb d0 n cs
         \<Longrightarrow> claims cs req rl d = replicate (length cs) Already_taken"
proof (induction cs arbitrary: rl n)
  case Nil show ?case by simp
next
  case (Cons c cs)
  obtain e uid mid where c: "c = (e, uid, mid)" by (cases c)
  from Cons.prems(2) c have p: "\<not> db_fails e OA_select_request" "owns e d0 uid mid"
    "length (rb (uid, ''offer_actions'')) + n < 10" and rest: "proper_claims rb d0 (Suc n) cs"
    by (simp_all add: proper_claim_def)
  have r: "rate_ok e rl uid" by (rule rate_ok_bound[where rl=rl and rb=rb and n=n, OF Cons.prems(1) p(3)])
  have s: "request_status e d req = Some ''assigned''" by (rule st[OF p(1)])
  have o: "owns e d uid mid" using own p(2) by simp
  have na: "''assigned'' \<noteq> ''new''" by simp
  note t = offer_take_non_new[OF na, where e=e and d=d and uid=uid and req_id=req and master_id=mid]
  have reply: "fst (offer_actions e rl d uid ''take'' req mid) = Already_taken"
    using r s t(3)[OF o] by (simp add: offer_actions_reply)
  have db: "snd (snd (offer_actions e rl d uid ''take'' req mid)) = d"
    using r s t(1) by (simp add: offer_actions_db)
  let ?rl' = "snd (check_limit rl (local_now e) uid ''offer_actions'' 10 3600)"
  have lim: "fst (snd (offer_actions e rl d uid ''take'' req mid)) = ?rl'"
    by (rule offer_actions_limiter)
  have oa: "offer_actions e rl d uid ''take'' req mid = (Already_taken, ?rl', d)"
    using reply db lim by (metis prod.collapse)
  have b: "\<And>key. length (?rl' key) \<le> length (rb key) + Suc n"
    by (rule check_limit_bound[where rl=rl and rb=rb and n=n, OF Cons.prems(1)])
  from Cons.IH[OF b rest] show ?case by (simp add: c oa)
qed

lemma owns_masters: "masters d' = masters d \<Longrightarrow> owns e d' uid mid = owns e d uid mid"
  by (simp add: owns_def)

lemma owns_debit: "owns e (debit_free_order k d) uid mid = owns e d uid mid"
proof -
  let ?f = "\<lambda>m. if m_id m = k
      then m\<lparr>m_free_orders_left := map_option (\<lambda>n. n - 1) (m_free_orders_left m)\<rparr> else m"
  have f: "filter (\<lambda>m. m_contact m = uid) (map ?f ms) = map ?f (filter (\<lambda>m. m_contact m = uid) ms)" for ms
    by (induction ms) auto
  show ?thesis
    by (cases "filter (\<lambda>m. m_contact m = uid) (masters d)")
       (simp_all add: owns_def debit_free_order_def f fetch_one_def)
qed

lemma request_status_assigned:
  assumes "request_status e d req = Some st" and "\<not> db_fails e' OA_select_request"
  shows "request_status e' (assign_request mid req d) req = Some ''assigned''"
proof -
  let ?f = "\<lambda>r. if r_id r = req then r\<lparr>r_status := ''assigned'', r_master_id := Some mid\<rparr> else r"
  have f: "filter (\<lambda>r. r_id r = req) (map ?f rs) = map ?f (filter (\<lambda>r. r_id r = req) rs)" for rs
    by (induction rs) auto
  from assms(1) obtain q qs where q: "filter (\<lambda>r. r_id r = req) (requests d) = q # qs"
    by (cases "filter (\<lambda>r. r_id r = req) (requests d)")
       (auto simp: request_status_def fetch_one_def split: if_splits)
  then have "q \<in> set (filter (\<lambda>r. r_id r = req) (requests d))" by simp
  then have "r_id q = req" by simp
  with q assms(2) show ?thesis
    by (simp add: request_status_def fetch_one_def assign_request_def f)
qed

lemma winner:
  assumes p: "proper_claim rl d 0 (e, uid, mid)" and ent: "entitled e d mid"
    and new: "request_status e d req = Some ''new''"
  shows "fst (offer_actions e rl d uid ''take'' req mid) = Claimed"
    and "\<And>e'. \<not> db_fails e' OA_select_request
           \<Longrightarrow> request_status e' (snd (snd (offer_actions e rl d uid ''take'' req mid))) req
               = Some ''assigned''"
    and "\<And>e' uid' mid'. owns e' (snd (snd (offer_actions e rl d uid ''take'' req mid))) uid' mid'
           = owns e' d uid' mid'"
proof -
  from p have ok: "\<not> write_lost e OA_assign" "\<not> tg_fails e TG_claim_edit"
      "\<not> tg_fails e TG_claim_details" "owns e d uid mid"
      "length (rl (uid, ''offer_actions'')) < 10"
    by (simp_all add: proper_claim_def)
  have r: "rate_ok e rl uid"
    by (rule rate_ok_bound[where n=0 and rl=rl and rb=rl]) (simp_all add: ok(5))
  from ent obtain m where m: "entitlement_row e d mid = Some m"
    "is_active e (m_sub_until m) \<or> (case m_free_orders_left m of None \<Rightarrow> 0 | Some n \<Rightarrow> n) > 0"
    by (auto simp: entitled_def split: option.splits)
  from ok(4) obtain cm where cm:
    "fetch_one e OA_select_current (filter (\<lambda>m. m_contact m = uid) (masters d)) = Some cm"
    "m_id cm = mid"
    by (auto simp: owns_def split: option.splits)
  define d0 where "d0 = (if is_active e (m_sub_until m) then d
                         else execute e OA_debit (debit_free_order mid) d)"
  have take: "offer_take e d uid ''new'' req mid = claim_accepted e d0 req mid"
    using cm m by (auto simp: offer_take_def entitlement_row_def d0_def)
  have req0: "requests d0 = requests d"
    by (simp add: d0_def execute_def debit_free_order_def)
  have own0: "owns e' d0 uid' mid' = owns e' d uid' mid'" for e' uid' mid'
    by (simp add: d0_def execute_def owns_debit)
  have ca: "claim_accepted e d0 req mid
      = (Claimed, execute e OA_taken (set_offer_status ''taken'' req mid) (assign_request mid req d0))"
    using ok(1-3) by (auto simp: claim_accepted_def Let_def execute_def split: option.splits)
  let ?d1 = "execute e OA_taken (set_offer_status ''taken'' req mid) (assign_request mid req d0)"
  have db: "snd (snd (offer_actions e rl d uid ''take'' req mid)) = ?d1"
    using r new take ca by (simp add: offer_actions_db)
  show "fst (offer_actions e rl d uid ''take'' req mid) = Claimed"
    using r new take ca by (simp add: offer_actions_reply)
  have rq1: "requests ?d1 = requests (assign_request mid req d0)"
    by (simp add: execute_def set_offer_status_def)
  have ms1: "masters ?d1 = masters d0"
    by (simp add: execute_def set_offer_status_def assign_request_def)
  show "request_status e' (snd (snd (offer_actions e rl d uid ''take'' req mid))) req
               = Some ''assigned''" if "\<not> db_fails e' OA_select_request" for e'
  proof -
    have "request_status e d0 req = Some ''new''"
      using new by (simp add: request_status_def req0)
    from request_status_assigned[OF this that, of mid]
    show ?thesis unfolding db by (simp add: request_status_def rq1)
  qed
  show "owns e' (snd (snd (offer_actions e rl d uid ''take'' req mid))) uid' mid'
           = owns e' d uid' mid'" for e' uid' mid'
    unfolding db using owns_masters[OF ms1] own0 by simp
qed

lemma single_winner:
  assumes "proper_claims rl d 0 ((e, uid, mid) # cs)" and "entitled e d mid"
    and "request_status e d req = Some ''new''"
  shows "claims ((e, uid, mid) # cs) req rl d = Claimed # replicate (length cs) Already_taken"
proof -
  from assms(1) have p: "proper_claim rl d 0 (e, uid, mid)" and rest: "proper_claims rl d (Suc 0) cs"
    by simp_all
  note w = winner[OF p assms(2,3)]
  let ?rl' = "fst (snd (offer_actions e rl d uid ''take'' req mid))"
  let ?d' = "snd (snd (offer_actions e rl d uid ''take'' req mid))"
  have b0: "\<And>key. length (rl key) \<le> length (rl key) + 0" by simp
  have b: "\<And>key. length (?rl' key) \<le> length (rl key) + Suc 0"
    unfolding offer_actions_limiter
    by (rule check_limit_bound[where rl=rl and rb=rl and n=0, OF b0])
  have "claims cs req ?rl' ?d' = replicate (length cs) Already_taken"
    by (rule losers[OF w(2) w(3) b rest])
  with w(1) show ?thesis by (simp add: case_prod_beta)
qed

lemma skip_marks_skipped:
  assumes "rate_ok e rl uid" and "request_status e d req \<noteq> None" and "\<not> write_lost e OA_skip"
  shows "offers (snd (snd (offer_actions e rl d uid ''skip'' req mid)))
     = map (\<lambda>ofr. if o_request_id ofr = Some req \<and> o_master_id ofr = mid
                   then ofr\<lparr>o_status := ''skipped''\<rparr> else ofr) (offers d)"
  using assms by (auto simp: offer_actions_db execute_def set_offer_status_def)

lemma claim_marks_taken:
  assumes "fst (offer_actions e rl d uid ''take'' req mid) = Claimed" and "\<not> write_lost e OA_taken"
  shows "offers (snd (snd (offer_actions e rl d uid ''take'' req mid)))
     = map (\<lambda>ofr. if o_request_id ofr = Some req \<and> o_master_id ofr = mid
                   then ofr\<lparr>o_status := ''taken''\<rparr> else ofr) (offers d)"
proof -
  from assms(1) obtain st where st: "rate_ok e rl uid" "request_status e d req = Some st"
      "fst (offer_take e d uid st req mid) = Claimed"
    by (auto simp: offer_actions_reply split: if_splits option.splits)
  have db: "snd (snd (offer_actions e rl d uid ''take'' req mid)) = snd (offer_take e d uid st req mid)"
    using st(1,2) by (simp add: offer_actions_db)
  from st(3) obtain d0 where d0: "offer_take e d uid st req mid = claim_accepted e d0 req mid"
      "offers d0 = offers d"
    by (auto simp: offer_take_def execute_def debit_free_order_def split: option.splits if_splits)
  from st(3) d0(1) have c: "fst (claim_accepted e d0 req mid) = Claimed" by simp
  from claim_accepted_result(6)[of e d0 req mid] c assms(2)
  show ?thesis unfolding db d0(1) by (simp add: set_offer_status_def d0(2))
qed

text \<open>
  C5 (as amended). The status of an offer is not final. A skip that the limiter admits,
  for a request that exists, the store not refusing the write, sets every offer of that
  request and master to \<open>skipped\<close>, whatever its status was; an accepted claim, the store not
  refusing the write, sets every offer of that request and master to \<open>taken\<close>, whatever its
  status was. What holds is the single winner. Start from a database in which ids are keys
  handed out by the sequences, a request has at most one offer per master, a request with a
  taken offer is not \<open>new\<close> and the taken offers of a request name one master (the empty
  database is one): in every state reached from it by handler runs in which the store
  refuses no status write of a claim, a request has at most one offer with status \<open>taken\<close>.
  And when takes on a request that is \<open>new\<close> are handled one after another, each by the owner
  of the master record it names and within the limiter's room, with the store answering the
  read of the request and not refusing the status write and with no Telegram call raising,
  and the first claimant is entitled, then the first take is accepted and every other one
  is answered "already taken".
\<close>

theorem single_taken_offer:
  "(offers_inv start \<and> assign_kept evs
      \<longrightarrow> length (taken_for (snd (run evs (limiter, start))) r) \<le> 1)
   \<and> (proper_claims rl d 0 ((e, uid, mid) # cs) \<and> entitled e d mid
       \<and> request_status e d req = Some ''new''
      \<longrightarrow> claims ((e, uid, mid) # cs) req rl d = Claimed # replicate (length cs) Already_taken)
   \<and> (rate_ok e' rl' uid' \<and> request_status e' d' req' \<noteq> None \<and> \<not> write_lost e' OA_skip
      \<longrightarrow> offers (snd (snd (offer_actions e' rl' d' uid' ''skip'' req' mid')))
           = map (\<lambda>ofr. if o_request_id ofr = Some req' \<and> o_master_id ofr = mid'
                         then ofr\<lparr>o_status := ''skipped''\<rparr> else ofr) (offers d'))
   \<and> (fst (offer_actions e2 rl2 d2 uid2 ''take'' req2 mid2) = Claimed \<and> \<not> write_lost e2 OA_taken
      \<longrightarrow> offers (snd (snd (offer_actions e2 rl2 d2 uid2 ''take'' req2 mid2)))
           = map (\<lambda>ofr. if o_request_id ofr = Some req2 \<and> o_master_id ofr = mid2
                         then ofr\<lparr>o_status := ''taken''\<rparr> else ofr) (offers d2))"
  using one_taken_run[of start evs limiter r] single_winner[of rl d e uid mid cs req]
    skip_marks_skipped[of e' rl' uid' d' req' mid'] claim_marks_taken[of e2 rl2 d2 uid2 req2 mid2]
  by blast

theorem single_taken_offer_witness:
  "offers_inv (snd initial_world) \<and> offers_inv db_new
   \<and> assign_kept [(env0, Offer_action ''103'' ''skip'' 1 3), (env0, Offer_action ''101'' ''take'' 1 1)]
   \<and> map o_status (offers (snd (run [(env0, Offer_action ''103'' ''skip'' 1 3),
                (env0, Offer_action ''101'' ''take'' 1 1)] (rl0, db_new))))
       = [''taken'', ''sent'', ''skipped'']
   \<and> length (taken_for (snd (run [(env0, Offer_action ''103'' ''skip'' 1 3),
                (env0, Offer_action ''101'' ''take'' 1 1)] (rl0, db_new))) 1) \<le> 1
   \<and> proper_claims rl0 db_new 0 [(env0, ''101'', 1), (env0, ''102'', 2), (env0, ''103'', 3)]
   \<and> entitled env0 db_new 1 \<and> request_status env0 db_new 1 = Some ''new''
   \<and> claims [(env0, ''101'', 1), (env0, ''102'', 2), (env0, ''103'', 3)] 1 rl0 db_new
       = [Claimed, Already_taken, Already_taken]
   \<and> rate_ok env0 rl0 ''101'' \<and> request_status env0 db_assigned 1 = Some ''assigned''
   \<and> map o_status (offers (snd (snd (offer_actions env0 rl0 db_assigned ''101'' ''skip'' 1 1))))
       = [''skipped'', ''sent'', ''sent'']
   \<and> fst (offer_actions env0 rl0 db_skipped ''101'' ''take'' 1 1) = Claimed
   \<and> map o_status (offers (snd (snd (offer_actions env0 rl0 db_skipped ''101'' ''take'' 1 1))))
       = [''taken'', ''sent'', ''sent'']"
proof -
  note t = single_taken_offer[where start=db_new and limiter=rl0 and r=1
      and evs="[(env0, Offer_action ''103'' ''skip'' 1 3), (env0, Offer_action ''101'' ''take'' 1 1)]"
      and rl=rl0 and d=db_new and e=env0 and uid="''101''" and mid=1
      and cs="[(env0, ''102'', 2), (env0, ''103'', 3)]" and req=1
      and e'=env0 and rl'=rl0 and uid'="''101''" and d'=db_assigned and req'=1 and mid'=1
      and ?e2.0=env0 and ?rl2.0=rl0 and ?d2.0=db_skipped and ?uid2.0="''101''" and ?req2.0=1
      and ?mid2.0=1]
  have inv: "offers_inv db_new"
    by (simp add: offers_inv_def ids_inv_def taken_inv_def ex_defs)
  have inv0: "offers_inv (snd initial_world)"
    by (simp add: offers_inv_def ids_inv_def taken_inv_def initial_world_def empty_db_def)
  have k: "assign_kept [(env0, Offer_action ''103'' ''skip'' 1 3), (env0, Offer_action ''101'' ''take'' 1 1)]"
    by (simp add: assign_kept_def env0_def write_lost_def)
  have run: "map o_status (offers (snd (run [(env0, Offer_action ''103'' ''skip'' 1 3),
                (env0, Offer_action ''101'' ''take'' 1 1)] (rl0, db_new))))
       = [''taken'', ''sent'', ''skipped'']"
    by (simp add: oa_defs ex_defs Let_def)
  have p: "proper_claims rl0 db_new 0 [(env0, ''101'', 1), (env0, ''102'', 2), (env0, ''103'', 3)]"
    by (simp add: proper_claim_def owns_def fetch_one_def ex_defs)
  have en: "entitled env0 db_new 1"
    by (simp add: entitled_def entitlement_row_def fetch_one_def is_active_def ex_defs)
  have st: "request_status env0 db_new 1 = Some ''new''"
    "request_status env0 db_assigned 1 = Some ''assigned''"
    by (simp_all add: request_status_def fetch_one_def ex_defs)
  have r: "rate_ok env0 rl0 ''101''" by (simp add: rate_ok_def check_limit_def ex_defs)
  have nf: "\<not> write_lost env0 OA_skip" "\<not> write_lost env0 OA_taken"
    by (simp_all add: env0_def write_lost_def)
  have m: "map o_status (map (\<lambda>ofr. if o_request_id ofr = Some 1 \<and> o_master_id ofr = 1
                         then ofr\<lparr>o_status := ''skipped''\<rparr> else ofr) (offers db_assigned))
       = [''skipped'', ''sent'', ''sent'']"
    "map o_status (map (\<lambda>ofr. if o_request_id ofr = Some 1 \<and> o_master_id ofr = 1
                         then ofr\<lparr>o_status := ''taken''\<rparr> else ofr) (offers db_skipped))
       = [''taken'', ''sent'', ''sent'']"
    by (simp_all add: db_skipped_def ex_defs)
  have cl: "fst (offer_actions env0 rl0 db_skipped ''101'' ''take'' 1 1) = Claimed"
    by (simp add: db_skipped_def oa_defs ex_defs)
  have c1: "length (taken_for (snd (run [(env0, Offer_action ''103'' ''skip'' 1 3),
                (env0, Offer_action ''101'' ''take'' 1 1)] (rl0, db_new))) 1) \<le> 1"
    using t inv k by blast
  have c2: "claims [(env0, ''101'', 1), (env0, ''102'', 2), (env0, ''103'', 3)] 1 rl0 db_new
       = Claimed # replicate (length [(env0, ''102'', 2::int), (env0, ''103'', 3)]) Already_taken"
    using t p en st(1) by blast
  have c3: "offers (snd (snd (offer_actions env0 rl0 db_assigned ''101'' ''skip'' 1 1)))
       = map (\<lambda>ofr. if o_request_id ofr = Some 1 \<and> o_master_id ofr = 1
                     then ofr\<lparr>o_status := ''skipped''\<rparr> else ofr) (offers db_assigned)"
    using t r st(2) nf(1) by simp
  have c4: "offers (snd (snd (offer_actions env0 rl0 db_skipped ''101'' ''take'' 1 1)))
       = map (\<lambda>ofr. if o_request_id ofr = Some 1 \<and> o_master_id ofr = 1
                     then ofr\<lparr>o_status := ''taken''\<rparr> else ofr) (offers db_skipped)"
    using t cl nf(2) by simp
  have c2': "claims [(env0, ''101'', 1), (env0, ''102'', 2), (env0, ''103'', 3)] 1 rl0 db_new
       = [Claimed, Already_taken, Already_taken]"
    using c2 by (simp add: numeral_2_eq_2)
  show ?thesis unfolding c3 c4 m using inv0 inv k run c1 p en st c2' r cl by blast
qed

text \<open>
  The claim as stated fails: the offer of request 1 to master 1 is \<open>taken\<close>, and a skip for
  it afterwards turns it into \<open>skipped\<close>.
\<close>

theorem skip_after_taken_counterexample:
  "map o_status (offers db_assigned) = [''taken'', ''sent'', ''sent'']
   \<and> map o_status (offers (snd (snd (offer_actions env0 rl0 db_assigned ''101'' ''skip'' 1 1))))
       = [''skipped'', ''sent'', ''sent'']"
  by (simp add: ex_defs oa_defs)

end
